theory Spec2Isabelle
  imports Main
begin

section \<open>Data model of the transport layer\<close>

text \<open>
  Pointers are addresses; \<open>None\<close> is the C \<open>NULL\<close>. \<open>esp_err_t\<close> is a C \<open>int\<close>;
  the code only compares it with \<open>ESP_OK\<close> and passes it on, so it is an \<open>int\<close> here.
\<close>

type_synonym addr = nat
type_synonym esp_err_t = int

text \<open>
  Modelled from the spec: the error codes come from \<open>esp_err.h\<close>, a header that is
  not among the sources. The spec's taxonomy is success, InvalidArgument
  (\<open>ESP_ERR_INVALID_ARG\<close>), OutOfMemory (\<open>ESP_ERR_NO_MEM\<close>) and an error passed
  through from a callback (such as \<open>ESP_FAIL\<close>). The numbers are those of ESP-IDF
  (0, 0x102, 0x101, -1); nothing below depends on them except that \<open>ESP_OK\<close>
  differs from the others.
\<close>

abbreviation ESP_OK :: esp_err_t where "ESP_OK \<equiv> 0"
abbreviation ESP_FAIL :: esp_err_t where "ESP_FAIL \<equiv> - 1"
abbreviation ESP_ERR_NO_MEM :: esp_err_t where "ESP_ERR_NO_MEM \<equiv> 257"
abbreviation ESP_ERR_INVALID_ARG :: esp_err_t where "ESP_ERR_INVALID_ARG \<equiv> 258"

text \<open>\<open>esp_transport_ownership_t\<close> (PHASE1_TRANSPORT_API_ADDITIONS.h).\<close>

datatype esp_transport_ownership_t =
  ESP_TRANSPORT_OWNERSHIP_NONE
| ESP_TRANSPORT_OWNERSHIP_SHARED
| ESP_TRANSPORT_OWNERSHIP_EXCLUSIVE

text \<open>
  A \<open>trans_func\<close> is a callback \<open>int f(esp_transport_handle_t t)\<close>. It receives the
  address of the node and works on the layer's own context, which is the opaque
  world \<open>'w\<close> (heap blocks of the layer, sockets, the allocator). A callback does not
  write transport nodes or list heads: that is the layer contract of the design
  (a layer's close and destroy care for the layer's own resources only), and it is
  fixed here by the type. The other function pointers of a node are never called by
  the code modelled here and are opaque code addresses.
\<close>

type_synonym 'w trans_func = "addr \<Rightarrow> 'w \<Rightarrow> int \<times> 'w"
type_synonym fptr = nat

text \<open>
  \<open>struct esp_transport_item_t\<close> (PHASE1_TRANSPORT_INTERNAL_ADDITIONS.h). The C
  fields \<open>_connect\<close>, \<open>_read\<close>, ... are \<open>f_connect\<close>, \<open>f_read\<close>, ...; the list link
  \<open>next\<close> (\<open>STAILQ_ENTRY\<close>) is \<open>stq_next\<close>. \<open>scheme\<close> is the heap string the node
  points to, \<open>None\<close> when the pointer is \<open>NULL\<close>.
\<close>

record 'w esp_transport_item_t =
  port :: int
  scheme :: "string option"
  data :: "addr option"
  f_connect :: "fptr option"
  f_read :: "fptr option"
  f_write :: "fptr option"
  f_close :: "'w trans_func option"
  f_poll_read :: "fptr option"
  f_poll_write :: "fptr option"
  f_destroy :: "'w trans_func option"
  f_connect_async :: "fptr option"
  f_parent_transfer :: "fptr option"
  f_get_socket :: "fptr option"
  keep_alive_cfg :: "addr option"
  foundation :: "addr option"
  ownership :: esp_transport_ownership_t
  parent :: "addr option"
  stq_next :: "addr option"

text \<open>
  The list head of \<open>sys/queue.h\<close>'s \<open>STAILQ_HEAD\<close>: \<open>stqh_first\<close> and \<open>stqh_last\<close>.
  In C \<open>stqh_last\<close> is the address of the last link field; here it is \<open>None\<close> when
  it points to the head's own \<open>stqh_first\<close> (empty list) and \<open>Some a\<close> when it
  points to the \<open>next\<close> field of node \<open>a\<close>.
\<close>

record stailq_head =
  stqh_first :: "addr option"
  stqh_last :: "addr option"

text \<open>
  The machine state: the live transport nodes, the live list heads, the layers'
  world, and a ghost log \<open>invoked\<close> of the callback invocations made by the
  modelled functions, in order: the node the callback was called on, the callback,
  and what it returned. Freeing an object removes it from its map.
\<close>

record 'w state =
  heap :: "addr \<rightharpoonup> 'w esp_transport_item_t"
  lists :: "addr \<rightharpoonup> stailq_head"
  world :: 'w
  invoked :: "(addr \<times> 'w trans_func \<times> esp_err_t) list"

text \<open>
  A function of the model returns \<open>None\<close> when the C call has no defined result:
  it dereferences a pointer to no live object (undefined behaviour in C) or it never
  returns (a cyclic chain or list). \<open>Some\<close> is a normal return.
\<close>

definition call :: "'w trans_func \<Rightarrow> addr \<Rightarrow> 'w state \<Rightarrow> esp_err_t \<times> 'w state" where
  "call f a s =
     (let (r, w') = f a (world s)
      in (r, s\<lparr>world := w', invoked := invoked s @ [(a, f, r)]\<rparr>))"

section \<open>The registry (transport list)\<close>

text \<open>\<open>STAILQ_INSERT_TAIL(head, elm, next)\<close> and \<open>STAILQ_INIT(head)\<close> of \<open>sys/queue.h\<close>.\<close>

definition STAILQ_INSERT_TAIL :: "addr \<Rightarrow> addr \<Rightarrow> 'w state \<Rightarrow> 'w state option" where
  "STAILQ_INSERT_TAIL h t s =
     (case (lists s h, heap s t) of
        (Some hq, Some it) \<Rightarrow>
          let s1 = s\<lparr>heap := (heap s)(t \<mapsto> it\<lparr>stq_next := None\<rparr>)\<rparr>
          in (case stqh_last hq of
                None \<Rightarrow>
                  Some (s1\<lparr>lists := (lists s1)(h \<mapsto> \<lparr>stqh_first = Some t, stqh_last = Some t\<rparr>)\<rparr>)
              | Some l \<Rightarrow>
                  (case heap s1 l of
                     None \<Rightarrow> None
                   | Some lit \<Rightarrow>
                       Some (s1\<lparr>heap := (heap s1)(l \<mapsto> lit\<lparr>stq_next := Some t\<rparr>),
                                lists := (lists s1)(h \<mapsto> hq\<lparr>stqh_last := Some t\<rparr>)\<rparr>)))
      | _ \<Rightarrow> None)"

definition STAILQ_INIT :: "addr \<Rightarrow> 'w state \<Rightarrow> 'w state option" where
  "STAILQ_INIT h s =
     (case lists s h of
        None \<Rightarrow> None
      | Some hq \<Rightarrow> Some (s\<lparr>lists := (lists s)(h \<mapsto> \<lparr>stqh_first = None, stqh_last = None\<rparr>)\<rparr>))"

text \<open>
  \<open>esp_transport_list_add_ex\<close> (PHASE1_TRANSPORT_C_ADDITIONS.c, 22-45).
  \<open>calloc_ok\<close> says whether the \<open>calloc\<close> of the label copy succeeds. The macro
  \<open>ESP_TRANSPORT_MEM_CHECK(TAG, a, action)\<close> is not defined in the sources; it
  runs \<open>action\<close> when \<open>a\<close> is \<open>NULL\<close> (the spec: an allocation failure in the label
  copy is reported as OutOfMemory). The label the node pointed to before is not
  freed by the code; labels are values here, so that leak is not visible.
\<close>

definition esp_transport_list_add_ex ::
  "addr option \<Rightarrow> addr option \<Rightarrow> string \<Rightarrow> esp_transport_ownership_t \<Rightarrow> bool \<Rightarrow>
   'w state \<Rightarrow> (esp_err_t \<times> 'w state) option" where
  "esp_transport_list_add_ex h t scheme_arg ownership_arg calloc_ok s =
     (case (h, t) of
        (Some hp, Some tp) \<Rightarrow>
          (case heap s tp of
             None \<Rightarrow> None
           | Some it \<Rightarrow>
               let it1 = it\<lparr>ownership := ownership_arg\<rparr>;
                   it2 = it1\<lparr>scheme := (if calloc_ok then Some [] else None)\<rparr>
               in if scheme it2 = None
                  then Some (ESP_ERR_NO_MEM, s\<lparr>heap := (heap s)(tp \<mapsto> it2)\<rparr>)
                  else
                    let it3 = it2\<lparr>scheme := Some scheme_arg\<rparr>;
                        s3 = s\<lparr>heap := (heap s)(tp \<mapsto> it3)\<rparr>
                    in map_option (Pair ESP_OK) (STAILQ_INSERT_TAIL hp tp s3))
      | _ \<Rightarrow> Some (ESP_ERR_INVALID_ARG, s))"

text \<open>\<open>esp_transport_list_add\<close> (50-57).\<close>

definition esp_transport_list_add ::
  "addr option \<Rightarrow> addr option \<Rightarrow> string \<Rightarrow> bool \<Rightarrow> 'w state \<Rightarrow> (esp_err_t \<times> 'w state) option" where
  "esp_transport_list_add h t scheme_arg calloc_ok s =
     esp_transport_list_add_ex h t scheme_arg ESP_TRANSPORT_OWNERSHIP_EXCLUSIVE calloc_ok s"

text \<open>
  Modelled from the spec: \<open>esp_transport_destroy\<close> is called by
  \<open>esp_transport_list_clean\<close> but is not defined in the sources. The spec calls it
  the single-node destroy, with no call into chain-wide teardown: the node's own
  destroy callback is invoked (when the node has one), then the node's own
  allocation (scheme label, node record) is released; the parent is not visited.
  The caller discards its return value, so the model returns the state only.
\<close>

definition esp_transport_destroy :: "addr option \<Rightarrow> 'w state \<Rightarrow> 'w state option" where
  "esp_transport_destroy t s =
     (case t of
        None \<Rightarrow> Some s
      | Some a \<Rightarrow>
          (case heap s a of
             None \<Rightarrow> None
           | Some it \<Rightarrow>
               let s1 = (case f_destroy it of None \<Rightarrow> s | Some d \<Rightarrow> snd (call d a s))
               in Some (s1\<lparr>heap := (heap s1)(a := None)\<rparr>)))"

text \<open>
  The \<open>while (item != NULL)\<close> loop of \<open>esp_transport_list_clean\<close> (71-90), started
  at \<open>item\<close>.
\<close>

partial_function (option) list_clean_loop :: "addr option \<Rightarrow> 'w state \<Rightarrow> 'w state option" where
  "list_clean_loop item s =
     (case item of
        None \<Rightarrow> Some s
      | Some a \<Rightarrow>
          (case heap s a of
             None \<Rightarrow> None
           | Some it \<Rightarrow>
               let tmp = stq_next it
               in Option.bind
                    (if ownership it = ESP_TRANSPORT_OWNERSHIP_EXCLUSIVE
                     then esp_transport_destroy (Some a) s
                     else Some (s\<lparr>heap := (heap s)(a \<mapsto> it\<lparr>scheme := None\<rparr>)\<rparr>))
                    (\<lambda>s1. list_clean_loop tmp s1)))"

text \<open>\<open>esp_transport_list_clean\<close> (62-94).\<close>

definition esp_transport_list_clean :: "addr option \<Rightarrow> 'w state \<Rightarrow> (esp_err_t \<times> 'w state) option" where
  "esp_transport_list_clean h s =
     (case h of
        None \<Rightarrow> Some (ESP_ERR_INVALID_ARG, s)
      | Some hp \<Rightarrow>
          (case lists s hp of
             None \<Rightarrow> None
           | Some hq \<Rightarrow>
               Option.bind (list_clean_loop (stqh_first hq) s)
                 (\<lambda>s1. map_option (Pair ESP_OK) (STAILQ_INIT hp s1))))"

text \<open>
  Modelled from the spec: \<open>esp_transport_list_destroy\<close> is not defined in the
  sources. The spec: destroy is clean followed by releasing the registry's own
  backing storage.
\<close>

definition esp_transport_list_destroy :: "addr option \<Rightarrow> 'w state \<Rightarrow> (esp_err_t \<times> 'w state) option" where
  "esp_transport_list_destroy h s =
     Option.bind (esp_transport_list_clean h s)
       (\<lambda>(err, s1). Some (ESP_OK, (case h of None \<Rightarrow> s1 | Some hp \<Rightarrow> s1\<lparr>lists := (lists s1)(hp := None)\<rparr>)))"

section \<open>Chain operations\<close>

text \<open>
  \<open>esp_transport_chain_execute\<close> (101-146). The logging statement before the call of
  \<open>op\<close> reads \<open>t->scheme\<close>, so \<open>t\<close> is dereferenced first.
\<close>

partial_function (option) esp_transport_chain_execute ::
  "addr option \<Rightarrow> 'w trans_func option \<Rightarrow> bool \<Rightarrow> 'w state \<Rightarrow> (esp_err_t \<times> 'w state) option" where
  "esp_transport_chain_execute t op aggregate_errors s =
     (case (t, op) of
        (Some a, Some f) \<Rightarrow>
          (case heap s a of
             None \<Rightarrow> None
           | Some it \<Rightarrow>
               let (err, s1) = call f a s;
                   first_error = (if err \<noteq> ESP_OK then err else ESP_OK)
               in if err \<noteq> ESP_OK \<and> \<not> aggregate_errors then Some (first_error, s1)
                  else
                    (case parent it of
                       None \<Rightarrow> Some (if aggregate_errors then err else first_error, s1)
                     | Some p \<Rightarrow>
                         Option.bind (esp_transport_chain_execute (Some p) op aggregate_errors s1)
                           (\<lambda>(parent_err, s2).
                              let first_error2 =
                                    (if parent_err \<noteq> ESP_OK \<and> first_error = ESP_OK
                                     then parent_err else first_error);
                                  err2 =
                                    (if parent_err \<noteq> ESP_OK \<and> aggregate_errors
                                     then parent_err else err)
                              in Some (if aggregate_errors then err2 else first_error2, s2))))
      | _ \<Rightarrow> Some (ESP_ERR_INVALID_ARG, s))"

text \<open>
  \<open>transport_close_wrapper\<close> (151-158), reading the node from the heap \<open>hp\<close>.
  \<open>esp_transport_chain_execute\<close> calls an operation on live nodes only, so the
  first branch is never taken there.
\<close>

definition transport_close_wrapper :: "(addr \<rightharpoonup> 'w esp_transport_item_t) \<Rightarrow> 'w trans_func" where
  "transport_close_wrapper hp a w =
     (case hp a of
        None \<Rightarrow> (ESP_OK, w)
      | Some it \<Rightarrow>
          (case f_close it of
             None \<Rightarrow> (ESP_OK, w)
           | Some c \<Rightarrow> (let (ret, w') = c a w in (if ret = 0 then ESP_OK else ESP_FAIL, w'))))"

text \<open>\<open>esp_transport_close_chain\<close> (163-166).\<close>

definition esp_transport_close_chain :: "addr option \<Rightarrow> 'w state \<Rightarrow> (esp_err_t \<times> 'w state) option" where
  "esp_transport_close_chain t s =
     esp_transport_chain_execute t (Some (transport_close_wrapper (heap s))) False s"

text \<open>
  \<open>esp_transport_destroy_chain\<close> (171-206). \<open>free(t->scheme); free(t)\<close> removes the
  node from the heap.
\<close>

partial_function (option) esp_transport_destroy_chain ::
  "addr option \<Rightarrow> 'w state \<Rightarrow> (esp_err_t \<times> 'w state) option" where
  "esp_transport_destroy_chain t s =
     (case t of
        None \<Rightarrow> Some (ESP_ERR_INVALID_ARG, s)
      | Some a \<Rightarrow>
          (case heap s a of
             None \<Rightarrow> None
           | Some it \<Rightarrow>
               let parent_v = parent it;
                   (err, s1) = (case f_destroy it of None \<Rightarrow> (ESP_OK, s) | Some d \<Rightarrow> call d a s);
                   s2 = s1\<lparr>heap := (heap s1)(a := None)\<rparr>
               in (case parent_v of
                     None \<Rightarrow> Some (err, s2)
                   | Some p \<Rightarrow>
                       Option.bind (esp_transport_destroy_chain (Some p) s2)
                         (\<lambda>(parent_err, s3).
                            Some (if parent_err \<noteq> ESP_OK \<and> err = ESP_OK then parent_err else err, s3)))))"

text \<open>\<open>esp_transport_get_parent\<close> (211-214).\<close>

definition esp_transport_get_parent :: "addr option \<Rightarrow> 'w state \<Rightarrow> addr option option" where
  "esp_transport_get_parent t s =
     (case t of
        None \<Rightarrow> Some None
      | Some a \<Rightarrow> map_option parent (heap s a))"

text \<open>
  \<open>esp_transport_init\<close> (223-233). \<open>calloc_result\<close> is what \<open>calloc\<close> returned: \<open>None\<close>
  for \<open>NULL\<close>, else the address of a zero-filled node.
\<close>

definition zero_item :: "'w esp_transport_item_t" where
  "zero_item =
     \<lparr>port = 0, scheme = None, data = None, f_connect = None, f_read = None,
      f_write = None, f_close = None, f_poll_read = None, f_poll_write = None,
      f_destroy = None, f_connect_async = None, f_parent_transfer = None,
      f_get_socket = None, keep_alive_cfg = None, foundation = None,
      ownership = ESP_TRANSPORT_OWNERSHIP_NONE, parent = None, stq_next = None\<rparr>"

definition esp_transport_init :: "addr option \<Rightarrow> 'w state \<Rightarrow> addr option \<times> 'w state" where
  "esp_transport_init calloc_result s =
     (case calloc_result of
        None \<Rightarrow> (None, s)
      | Some a \<Rightarrow>
          let s1 = s\<lparr>heap := (heap s)(a \<mapsto> zero_item)\<rparr>;
              transport = zero_item\<lparr>ownership := ESP_TRANSPORT_OWNERSHIP_EXCLUSIVE\<rparr>;
              transport2 = transport\<lparr>parent := None\<rparr>
          in (Some a, s1\<lparr>heap := (heap s1)(a \<mapsto> transport2)\<rparr>))"

section \<open>Well-formed chains and lists\<close>

text \<open>
  \<open>linked sel hp p as\<close>: following the link \<open>sel\<close> from pointer \<open>p\<close> through the live
  nodes of \<open>hp\<close> visits exactly the addresses \<open>as\<close>, in this order, and then reaches
  \<open>NULL\<close>. The parent chain of a node uses \<open>sel = parent\<close>, the entries of a list
  \<open>sel = stq_next\<close>.
\<close>

primrec linked ::
  "('w esp_transport_item_t \<Rightarrow> addr option) \<Rightarrow> (addr \<rightharpoonup> 'w esp_transport_item_t) \<Rightarrow>
   addr option \<Rightarrow> addr list \<Rightarrow> bool" where
  "linked sel hp p [] = (p = None)"
| "linked sel hp p (a # as) =
     (p = Some a \<and> (case hp a of None \<Rightarrow> False | Some it \<Rightarrow> linked sel hp (sel it) as))"

section \<open>Reading the callback log\<close>

text \<open>
  An entry of \<open>invoked\<close> is (node, callback, result). \<open>call_of\<close> is the call
  (which callback on which node), \<open>result_of\<close> what it returned.
\<close>

fun call_of :: "addr \<times> 'w trans_func \<times> esp_err_t \<Rightarrow> addr \<times> 'w trans_func" where
  "call_of (a, f, r) = (a, f)"

fun result_of :: "addr \<times> 'w trans_func \<times> esp_err_t \<Rightarrow> esp_err_t" where
  "result_of (a, f, r) = r"

text \<open>
  What a list of calls does and returns when the calls are made in order, each
  callback on its node, each on the world the one before it left: the results in
  order, and the world after the last call.
\<close>

primrec run_calls :: "(addr \<times> 'w trans_func) list \<Rightarrow> 'w \<Rightarrow> esp_err_t list \<times> 'w" where
  "run_calls [] w = ([], w)"
| "run_calls (c # cs) w =
     (let rw = snd c (fst c) w;
          rest = run_calls cs (snd rw)
      in (fst rw # fst rest, snd rest))"

text \<open>
  The first and the last result of a list of results that is not \<open>ESP_OK\<close>;
  \<open>ESP_OK\<close> when there is none.
\<close>

definition first_failure :: "esp_err_t list \<Rightarrow> esp_err_t" where
  "first_failure rs = (case filter (\<lambda>r. r \<noteq> ESP_OK) rs of [] \<Rightarrow> ESP_OK | r # _ \<Rightarrow> r)"

definition last_failure :: "esp_err_t list \<Rightarrow> esp_err_t" where
  "last_failure rs = (case rev (filter (\<lambda>r. r \<noteq> ESP_OK) rs) of [] \<Rightarrow> ESP_OK | r # _ \<Rightarrow> r)"

text \<open>
  The calls that invoke, for each address of \<open>as\<close> in order, the destroy callback
  stored in that very node (nothing for a node whose \<open>_destroy\<close> is \<open>NULL\<close>).
\<close>

definition destroy_calls ::
  "(addr \<rightharpoonup> 'w esp_transport_item_t) \<Rightarrow> addr list \<Rightarrow> (addr \<times> 'w trans_func) list" where
  "destroy_calls hp as =
     List.map_filter (\<lambda>b. map_option (Pair b) (Option.bind (hp b) f_destroy)) as"

text \<open>
  What \<open>esp_transport_list_clean\<close> leaves of one entry: nothing of a node tagged
  exclusive (it is destroyed), the node without its scheme label otherwise.
\<close>

definition clean_item :: "'w esp_transport_item_t \<Rightarrow> 'w esp_transport_item_t option" where
  "clean_item it =
     (if ownership it = ESP_TRANSPORT_OWNERSHIP_EXCLUSIVE then None else Some (it\<lparr>scheme := None\<rparr>))"

definition exclusive :: "(addr \<rightharpoonup> 'w esp_transport_item_t) \<Rightarrow> addr \<Rightarrow> bool" where
  "exclusive hp b =
     (case hp b of None \<Rightarrow> False | Some it \<Rightarrow> ownership it = ESP_TRANSPORT_OWNERSHIP_EXCLUSIVE)"

section \<open>A concrete chain: ws over ssl over tcp\<close>

text \<open>
  The layers' world is the list of the nodes whose context has been released.
  \<open>ok_cb\<close> releases and succeeds, \<open>fail_cb\<close> releases and reports \<open>ESP_FAIL\<close>,
  \<open>probe\<close> is an operation that fails on node 2 only; \<open>second_fails\<close> is an
  operation that succeeds the first time it is applied and fails from the second
  application on, whatever the node.
\<close>

definition ok_cb :: "nat list trans_func" where
  "ok_cb a w = (ESP_OK, w @ [a])"

definition fail_cb :: "nat list trans_func" where
  "fail_cb a w = (ESP_FAIL, w @ [a])"

definition probe :: "nat list trans_func" where
  "probe a w = (if a = 2 then ESP_FAIL else ESP_OK, w @ [a])"

definition second_fails :: "nat list trans_func" where
  "second_fails a w = (if w = [] then ESP_OK else ESP_FAIL, w @ [a])"

text \<open>A node as a layer constructor leaves it: its destroy callback and its parent set.\<close>

definition layer :: "nat list trans_func \<Rightarrow> addr option \<Rightarrow> nat list esp_transport_item_t" where
  "layer d p =
     zero_item\<lparr>f_destroy := Some d, ownership := ESP_TRANSPORT_OWNERSHIP_EXCLUSIVE, parent := p\<rparr>"

text \<open>
  tcp at address 1 (no parent), ssl at 2 (parent tcp), ws at 3 (parent ssl), and an
  empty list head at 10. The destroy callback of ssl is a parameter.
\<close>

definition chain_state :: "nat list trans_func \<Rightarrow> nat list state" where
  "chain_state ssl_destroy =
     \<lparr>heap = [1 \<mapsto> layer ok_cb None, 2 \<mapsto> layer ssl_destroy (Some 1), 3 \<mapsto> layer ok_cb (Some 2)],
      lists = [10 \<mapsto> \<lparr>stqh_first = None, stqh_last = None\<rparr>],
      world = [],
      invoked = []\<rparr>"

text \<open>
  The registration of PHASE1_EXAMPLE_USAGE.c (\<open>example_complete_websocket_client\<close>):
  tcp and ssl with ownership none, the top node with ownership exclusive.
\<close>

definition registered_chain :: "(esp_err_t \<times> nat list state) option" where
  "registered_chain =
     Option.bind
       (esp_transport_list_add_ex (Some 10) (Some 1) ''_tcp'' ESP_TRANSPORT_OWNERSHIP_NONE True
          (chain_state ok_cb))
       (\<lambda>(e1, s1).
          Option.bind
            (esp_transport_list_add_ex (Some 10) (Some 2) ''_ssl'' ESP_TRANSPORT_OWNERSHIP_NONE True s1)
            (\<lambda>(e2, s2).
               esp_transport_list_add_ex (Some 10) (Some 3) ''ws'' ESP_TRANSPORT_OWNERSHIP_EXCLUSIVE True s2))"

text \<open>The state the three registrations lead to.\<close>

definition tcp_registered :: "nat list esp_transport_item_t" where
  "tcp_registered =
     (layer ok_cb None)
       \<lparr>scheme := Some ''_tcp'', ownership := ESP_TRANSPORT_OWNERSHIP_NONE, stq_next := Some 2\<rparr>"

definition ssl_registered :: "nat list esp_transport_item_t" where
  "ssl_registered =
     (layer ok_cb (Some 1))
       \<lparr>scheme := Some ''_ssl'', ownership := ESP_TRANSPORT_OWNERSHIP_NONE, stq_next := Some 3\<rparr>"

definition ws_registered :: "nat list esp_transport_item_t" where
  "ws_registered = (layer ok_cb (Some 2))\<lparr>scheme := Some ''ws''\<rparr>"

definition registered_state :: "nat list state" where
  "registered_state =
     \<lparr>heap = [1 \<mapsto> tcp_registered, 2 \<mapsto> ssl_registered, 3 \<mapsto> ws_registered],
      lists = [10 \<mapsto> \<lparr>stqh_first = Some 1, stqh_last = Some 3\<rparr>],
      world = [],
      invoked = []\<rparr>"

text \<open>The full teardown of the registry after the registration.\<close>

definition registry_teardown :: "(esp_err_t \<times> nat list state) option" where
  "registry_teardown =
     Option.bind registered_chain (\<lambda>(e, s). esp_transport_list_destroy (Some 10) s)"

section \<open>The resource tracker\<close>

text \<open>
  Modelled from the spec: the type \<open>transport_resource_t\<close> and the functions
  \<open>transport_resources_init\<close> and \<open>transport_resources_cleanup\<close> are declared in
  \<open>esp_transport_resources.h\<close>, which is not among the sources; the sources only call
  them (PHASE1_WEBSOCKET_INTEGRATION.c, PHASE1_EXAMPLE_USAGE.c). A slot has a
  \<open>target\<close> (the resource it holds, \<open>None\<close> when empty), an optional \<open>init\<close>
  function from the configuration to a result and the new content of the target,
  a \<open>cleanup\<close> function of the target, and the flag \<open>initialized\<close>. Both functions
  work on the layer's world \<open>'w\<close> (the allocator). The slot sequence is a list; its
  end is the sentinel.
\<close>

record ('r, 'c, 'w) transport_resource_t =
  target :: "'r option"
  init :: "('c \<Rightarrow> 'w \<Rightarrow> (esp_err_t \<times> 'r option) \<times> 'w) option"
  cleanup :: "'r option \<Rightarrow> 'w \<Rightarrow> 'w"
  initialized :: bool

text \<open>
  The events of a tracker, in order: an init function was invoked on slot \<open>i\<close> and
  returned \<open>r\<close>; the cleanup function of slot \<open>i\<close> was invoked.
\<close>

datatype slot_event = Init_Called nat esp_err_t | Cleanup_Called nat

text \<open>
  The state of one node's tracker: its slot sequence, the layer's world, and the
  ghost log of the events.
\<close>

record ('r, 'c, 'w) tracker =
  slots :: "('r, 'c, 'w) transport_resource_t list"
  res_world :: 'w
  events :: "slot_event list"

text \<open>
  Modelled from the spec: the cleanup of one slot invokes the slot's \<open>cleanup\<close>,
  then clears \<open>initialized\<close> and empties \<open>target\<close>. The index is always that of a
  slot of the sequence.
\<close>

definition cleanup_slot :: "nat \<Rightarrow> ('r, 'c, 'w) tracker \<Rightarrow> ('r, 'c, 'w) tracker" where
  "cleanup_slot i t =
     (let sl = slots t ! i
      in t\<lparr>slots := (slots t)[i := sl\<lparr>target := None, initialized := False\<rparr>],
           res_world := cleanup sl (target sl) (res_world t),
           events := events t @ [Cleanup_Called i]\<rparr>)"

text \<open>
  Modelled from the spec: the cleanup walk acts on a slot only when it is
  initialized.
\<close>

definition cleanup_step :: "nat \<Rightarrow> ('r, 'c, 'w) tracker \<Rightarrow> ('r, 'c, 'w) tracker" where
  "cleanup_step i t = (if initialized (slots t ! i) then cleanup_slot i t else t)"

text \<open>
  Modelled from the spec: \<open>cleanup(slots)\<close> walks the slot sequence in reverse
  order; for each slot with \<open>initialized == true\<close> it invokes \<open>cleanup\<close>, then clears
  \<open>initialized\<close> and empties \<open>target\<close>.
\<close>

definition transport_resources_cleanup :: "('r, 'c, 'w) tracker \<Rightarrow> ('r, 'c, 'w) tracker" where
  "transport_resources_cleanup t = fold cleanup_step (rev [0..<length (slots t)]) t"

text \<open>
  Modelled from the spec: \<open>init(slots, config)\<close> walks the slot sequence up to the
  sentinel. For each slot with \<open>initialized == false\<close> and a present \<open>init\<close> function
  it invokes it with \<open>config\<close>; on success it marks \<open>initialized = true\<close> and
  continues; on failure it invokes \<open>cleanup\<close> in reverse order, to restore a
  no-allocation baseline, then returns the failure. Slots without an \<open>init\<close>
  function are skipped. The rollback is the cleanup walk of the tracker: it cleans
  the slots initialized during this call, in reverse order, and leaves no slot
  initialized, which is what the spec states of a failed call in 4.1 (a
  no-allocation baseline), in 7 (zero allocated session resources) and in 8 (the
  total initialized count is 0). \<open>init_loop\<close> is the walk over the remaining
  indices.
\<close>

fun init_loop ::
  "'c \<Rightarrow> nat list \<Rightarrow> ('r, 'c, 'w) tracker \<Rightarrow> esp_err_t \<times> ('r, 'c, 'w) tracker" where
  "init_loop cfg [] t = (ESP_OK, t)"
| "init_loop cfg (i # is) t =
     (let sl = slots t ! i
      in case init sl of
           None \<Rightarrow> init_loop cfg is t
         | Some f \<Rightarrow>
             if initialized sl then init_loop cfg is t
             else
               let ((r, v), w') = f cfg (res_world t);
                   t1 = t\<lparr>slots := (slots t)[i := sl\<lparr>target := v\<rparr>],
                          res_world := w',
                          events := events t @ [Init_Called i r]\<rparr>
               in if r = ESP_OK
                  then init_loop cfg is
                         (t1\<lparr>slots := (slots t1)[i := (slots t1 ! i)\<lparr>initialized := True\<rparr>]\<rparr>)
                  else (r, transport_resources_cleanup t1))"

text \<open>
  Modelled from the spec: \<open>init(slots, config)\<close> is the walk over all slots.
\<close>

definition transport_resources_init ::
  "'c \<Rightarrow> ('r, 'c, 'w) tracker \<Rightarrow> esp_err_t \<times> ('r, 'c, 'w) tracker" where
  "transport_resources_init cfg t = init_loop cfg [0..<length (slots t)] t"

text \<open>The count of currently initialized slots.\<close>

definition count_initialized :: "('r, 'c, 'w) tracker \<Rightarrow> nat" where
  "count_initialized t = length (filter initialized (slots t))"

text \<open>
  A sequence init; cleanup; init; cleanup; ... on one tracker, one pair per
  configuration of the list (the result of each init is discarded, as a close after
  a failed connect would).
\<close>

definition reconnect_cycles :: "'c list \<Rightarrow> ('r, 'c, 'w) tracker \<Rightarrow> ('r, 'c, 'w) tracker" where
  "reconnect_cycles cfgs t =
     fold (\<lambda>cfg t. transport_resources_cleanup (snd (transport_resources_init cfg t))) cfgs t"


definition cleared :: "('r, 'c, 'w) transport_resource_t \<Rightarrow> ('r, 'c, 'w) transport_resource_t" where
  "cleared sl = (if initialized sl then sl\<lparr>target := None, initialized := False\<rparr> else sl)"




text \<open>
  Concrete trackers. The world counts the live allocations. In \<open>marked_tracker\<close>
  slot 0 has no init function and was populated and marked by the layer (as
  \<open>redir_host\<close> is in \<open>ws_connect_after\<close>), slot 1 allocates, and the allocation
  of slot 2 fails. \<open>unmarked_tracker\<close> is the same without the marked slot;
  \<open>fresh_tracker\<close> has no initialized slot and no failing one. \<open>marked_failed\<close>
  and \<open>unmarked_failed\<close> are the first two after a failed init.
\<close>

definition alloc_ok :: "unit \<Rightarrow> nat \<Rightarrow> (esp_err_t \<times> nat option) \<times> nat" where
  "alloc_ok cfg w = ((ESP_OK, Some w), Suc w)"


definition release :: "nat option \<Rightarrow> nat \<Rightarrow> nat" where
  "release v w = (case v of None \<Rightarrow> w | Some x \<Rightarrow> w - 1)"

definition manual_slot :: "(nat, unit, nat) transport_resource_t" where
  "manual_slot = \<lparr>target = Some 7, init = None, cleanup = release, initialized = True\<rparr>"

definition buffer_slot :: "(nat, unit, nat) transport_resource_t" where
  "buffer_slot = \<lparr>target = None, init = Some alloc_ok, cleanup = release, initialized = False\<rparr>"






definition fresh_tracker :: "(nat, unit, nat) tracker" where
  "fresh_tracker =
     \<lparr>slots = [buffer_slot, manual_slot\<lparr>target := None, initialized := False\<rparr>],
      res_world = 0, events = []\<rparr>"

section \<open>Facts about chains, lists and the log\<close>

lemma linked_unique: "linked sel hp p as \<Longrightarrow> linked sel hp p bs \<Longrightarrow> as = bs"
proof (induction as arbitrary: p bs)
  case Nil
  then show ?case by (cases bs) auto
next
  case (Cons a as)
  then show ?case by (cases bs) (auto split: option.splits)
qed

lemma linked_suffix: "linked sel hp p (xs @ ys) \<Longrightarrow> \<exists>q. linked sel hp q ys"
  by (induction xs arbitrary: p) (auto split: option.splits)

text \<open>A chain that reaches \<open>NULL\<close> visits no node twice.\<close>

lemma linked_distinct: "linked sel hp p as \<Longrightarrow> distinct as"
proof (induction as arbitrary: p)
  case Nil
  then show ?case by simp
next
  case (Cons a as)
  from Cons.prems obtain it where it: "hp a = Some it" and tl: "linked sel hp (sel it) as"
    by (auto split: option.splits)
  have "a \<notin> set as"
  proof
    assume "a \<in> set as"
    then obtain xs ys where as: "as = xs @ a # ys" by (auto dest: split_list)
    with tl obtain q where "linked sel hp q (a # ys)" using linked_suffix by blast
    with it have "linked sel hp (sel it) ys" by simp
    with tl have "as = ys" by (rule linked_unique)
    with as show False by simp
  qed
  with Cons.IH[OF tl] show ?case by simp
qed

lemma linked_cong:
  "(\<And>b. b \<in> set as \<Longrightarrow> hp' b = hp b) \<Longrightarrow> linked sel hp' p as = linked sel hp p as"
  by (induction as arbitrary: p) (auto split: option.splits)

lemma linked_upd: "a \<notin> set as \<Longrightarrow> linked sel (hp(a := x)) p as = linked sel hp p as"
  by (rule linked_cong) auto

lemma linked_same_links:
  "(\<And>b. map_option sel (hp' b) = map_option sel (hp b)) \<Longrightarrow>
   linked sel hp' p as = linked sel hp p as"
proof (induction as arbitrary: p)
  case Nil
  then show ?case by simp
next
  case (Cons a as)
  from Cons.prems[of a] show ?case
    by (cases "hp a"; cases "hp' a") (simp_all add: Cons.IH[OF Cons.prems])
qed

lemma call_simps:
  "fst (call f a s) = fst (f a (world s))"
  "heap (snd (call f a s)) = heap s"
  "lists (snd (call f a s)) = lists s"
  "world (snd (call f a s)) = snd (f a (world s))"
  "invoked (snd (call f a s)) = invoked s @ [(a, f, fst (f a (world s)))]"
  by (simp_all add: call_def split: prod.splits)

lemma run_calls_append:
  "run_calls (xs @ ys) w =
     (fst (run_calls xs w) @ fst (run_calls ys (snd (run_calls xs w))),
      snd (run_calls ys (snd (run_calls xs w))))"
  by (induction xs arbitrary: w) (simp_all add: Let_def)

lemma run_calls_single: "run_calls [(a, f)] w = ([fst (f a w)], snd (f a w))"
  by (simp add: Let_def)

lemma run_calls_length: "length (fst (run_calls cs w)) = length cs"
  by (induction cs arbitrary: w) (simp_all add: Let_def)

lemma first_failure_Nil: "first_failure [] = ESP_OK"
  by (simp add: first_failure_def)

lemma first_failure_Cons: "first_failure (r # rs) = (if r \<noteq> ESP_OK then r else first_failure rs)"
  by (simp add: first_failure_def)

lemma last_failure_Cons:
  "last_failure (r # rs) = (if last_failure rs \<noteq> ESP_OK then last_failure rs else r)"
proof (cases "rev (filter (\<lambda>r. r \<noteq> ESP_OK) rs)")
  case Nil
  then show ?thesis by (simp add: last_failure_def)
next
  case (Cons x xs)
  then have "x \<in> set (filter (\<lambda>r. r \<noteq> ESP_OK) rs)"
    by (metis list.set_intros(1) set_rev)
  then have "x \<noteq> ESP_OK" by simp
  with Cons show ?thesis by (simp add: last_failure_def)
qed

lemma destroy_calls_Nil: "destroy_calls hp [] = []"
  by (simp add: destroy_calls_def List.map_filter_def)

lemma destroy_calls_Cons:
  "destroy_calls hp (a # as) =
     (case Option.bind (hp a) f_destroy of None \<Rightarrow> [] | Some d \<Rightarrow> [(a, d)]) @ destroy_calls hp as"
  by (simp add: destroy_calls_def List.map_filter_def split: option.splits)

lemma destroy_calls_append:
  "destroy_calls hp (xs @ ys) = destroy_calls hp xs @ destroy_calls hp ys"
  by (simp add: destroy_calls_def List.map_filter_def)

lemma destroy_calls_cong:
  "(\<And>b. b \<in> set as \<Longrightarrow> hp' b = hp b) \<Longrightarrow> destroy_calls hp' as = destroy_calls hp as"
  unfolding destroy_calls_def List.map_filter_def
  by (induction as) auto

lemma destroy_calls_upd:
  "a \<notin> set as \<Longrightarrow> destroy_calls (hp(a := x)) as = destroy_calls hp as"
  by (rule destroy_calls_cong) auto

lemma destroy_calls_fst: "fst ` set (destroy_calls hp as) \<subseteq> set as"
  by (induction as) (auto simp: destroy_calls_Cons destroy_calls_Nil split: option.splits)

lemma destroy_calls_filter:
  "filter (\<lambda>c. fst c = b) (destroy_calls hp as) = destroy_calls hp (filter (\<lambda>x. x = b) as)"
  by (induction as) (auto simp: destroy_calls_Cons destroy_calls_Nil split: option.splits)

lemma call_of_filter:
  "map call_of (filter (\<lambda>c. fst c = b) l) = filter (\<lambda>c. fst c = b) (map call_of l)"
  by (induction l) auto

lemma fst_call_of: "fst ` set (map call_of l) = fst ` set l"
  by (induction l) auto

lemma filter_eq_distinct: "distinct as \<Longrightarrow> b \<in> set as \<Longrightarrow> filter (\<lambda>x. x = b) as = [b]"
  by (induction as) (auto simp: filter_empty_conv)

lemma chain_state_linked: "linked parent (heap (chain_state d)) (Some 3) [3, 2, 1]"
  by (simp add: chain_state_def layer_def zero_item_def)

section \<open>Chain-wide destroy\<close>

text \<open>
  C2. For every parent chain \<open>as\<close> that starts at a live node \<open>a\<close>,
  \<open>esp_transport_destroy_chain\<close> returns. The calls it makes are exactly the
  destroy callbacks of the nodes of the chain, each node's own, in chain order and
  once each (the chain has no node twice), whatever any of them returns: the log
  grows by these calls, the results logged are what the callbacks return when run
  in this order, and the world is the one these calls leave. Every node of the
  chain is freed. The result of the call is the first of the callbacks' results
  that is not \<open>ESP_OK\<close>, or \<open>ESP_OK\<close> when there is none.
\<close>

theorem destroy_chain_visits_all_returns_first_error:
  assumes "linked parent (heap s) (Some a) as"
  shows "\<exists>e s' l. esp_transport_destroy_chain (Some a) s = Some (e, s')
     \<and> heap s' = (\<lambda>x. if x \<in> set as then None else heap s x) \<and> lists s' = lists s
     \<and> invoked s' = invoked s @ l
     \<and> map call_of l = destroy_calls (heap s) as \<and> distinct as
     \<and> map result_of l = fst (run_calls (destroy_calls (heap s) as) (world s))
     \<and> world s' = snd (run_calls (destroy_calls (heap s) as) (world s))
     \<and> e = first_failure (fst (run_calls (destroy_calls (heap s) as) (world s)))"
  using assms
proof (induction as arbitrary: a s)
  case Nil
  then show ?case by simp
next
  case (Cons b as)
  from Cons.prems obtain it where ab: "b = a" and it: "heap s a = Some it"
    and tl: "linked parent (heap s) (parent it) as"
    by (auto split: option.splits)
  from Cons.prems have dist: "distinct (b # as)" by (rule linked_distinct)
  with ab have notin: "a \<notin> set as" by simp
  define c where "c = (case f_destroy it of None \<Rightarrow> (ESP_OK, s) | Some d \<Rightarrow> call d a s)"
  obtain err s1 where c: "c = (err, s1)" by (cases c)
  define l0 where "l0 = (case f_destroy it of None \<Rightarrow> [] | Some d \<Rightarrow> [(a, d, err)])"
  define cs0 where "cs0 = (case f_destroy it of None \<Rightarrow> [] | Some d \<Rightarrow> [(a, d)])"
  have s1: "heap s1 = heap s \<and> lists s1 = lists s \<and> invoked s1 = invoked s @ l0
            \<and> world s1 = snd (run_calls cs0 (world s))
            \<and> map result_of l0 = fst (run_calls cs0 (world s))"
  proof (cases "f_destroy it")
    case None
    with c show ?thesis by (simp add: c_def l0_def cs0_def)
  next
    case (Some d)
    with c have "call d a s = (err, s1)" by (simp add: c_def)
    then show ?thesis
      using call_simps(2,3,4,5)[of d a s] call_simps(1)[of d a s] Some
      by (simp add: l0_def cs0_def Let_def)
  qed
  have l0: "map call_of l0 = cs0"
    by (simp add: l0_def cs0_def split: option.splits)
  have ff: "first_failure (map result_of l0 @ rs) = (if err \<noteq> ESP_OK then err else first_failure rs)"
    for rs
    using c by (auto simp: l0_def c_def first_failure_Cons split: option.splits)
  have dcs: "destroy_calls (heap s) (a # as) = cs0 @ destroy_calls (heap s) as"
    by (simp add: destroy_calls_Cons it cs0_def)
  define s2 where "s2 = s1\<lparr>heap := (heap s1)(a := None)\<rparr>"
  have s2: "heap s2 = (heap s)(a := None)" "lists s2 = lists s" "invoked s2 = invoked s @ l0"
    "world s2 = snd (run_calls cs0 (world s))"
    by (simp_all add: s2_def s1)
  show ?case
  proof (cases "parent it")
    case None
    with tl have as: "as = []" by (cases as) auto
    have "esp_transport_destroy_chain (Some a) s = Some (err, s2)"
      by (subst esp_transport_destroy_chain.simps) (simp add: it c[unfolded c_def] None s2_def)
    moreover have dcs0: "destroy_calls (heap s) (b # as) = cs0"
      using dcs by (simp add: ab as destroy_calls_Nil)
    moreover have "err = first_failure (fst (run_calls cs0 (world s)))"
      using ff[of "[]"] s1 by (simp add: first_failure_Nil)
    moreover have "heap s2 = (\<lambda>x. if x \<in> set (b # as) then None else heap s x)"
      by (auto simp: s2 ab as)
    moreover have "map result_of l0 = fst (run_calls cs0 (world s))" using s1 by simp
    ultimately show ?thesis unfolding dcs0 using s2(2,3,4) l0 dist
      by (intro exI[of _ err] exI[of _ s2] exI[of _ l0]) blast
  next
    case (Some p)
    from tl Some notin have "linked parent (heap s2) (Some p) as"
      by (simp add: s2 linked_upd)
    from Cons.IH[OF this] obtain e s' l where
      ex: "esp_transport_destroy_chain (Some p) s2 = Some (e, s')"
      and fr: "heap s' = (\<lambda>x. if x \<in> set as then None else heap s2 x)" "lists s' = lists s2"
      and inv: "invoked s' = invoked s2 @ l"
      and l: "map call_of l = destroy_calls (heap s2) as"
        "map result_of l = fst (run_calls (destroy_calls (heap s2) as) (world s2))"
        "world s' = snd (run_calls (destroy_calls (heap s2) as) (world s2))"
        "e = first_failure (fst (run_calls (destroy_calls (heap s2) as) (world s2)))"
      by blast
    have dc: "destroy_calls (heap s2) as = destroy_calls (heap s) as"
      using notin by (simp add: s2 destroy_calls_upd)
    have run: "run_calls (destroy_calls (heap s) (a # as)) (world s) =
        (map result_of l0 @ map result_of l, world s')"
      unfolding dcs run_calls_append using s1 l s2(4) by (simp add: dc)
    have "esp_transport_destroy_chain (Some a) s =
            Some (if e \<noteq> ESP_OK \<and> err = ESP_OK then e else err, s')"
      by (subst esp_transport_destroy_chain.simps)
         (simp add: it c[unfolded c_def] Some ex[unfolded s2_def] s2_def)
    moreover have "first_failure (fst (run_calls (destroy_calls (heap s) (a # as)) (world s))) =
        (if e \<noteq> ESP_OK \<and> err = ESP_OK then e else err)"
      using l(2,4) by (auto simp: run ff)
    moreover have "heap s' = (\<lambda>x. if x \<in> set (a # as) then None else heap s x)"
      by (auto simp: fr s2)
    moreover have "map call_of (l0 @ l) = destroy_calls (heap s) (a # as)"
      by (simp add: dcs l0 l(1) dc)
    ultimately show ?thesis using s2 ab fr(2) inv dist run
      by (intro exI[of _ "if e \<noteq> ESP_OK \<and> err = ESP_OK then e else err"] exI[of _ s']
            exI[of _ "l0 @ l"])
         simp
  qed
qed

text \<open>
  The chain ws, ssl, tcp with a failing destroy callback on ssl: all three are
  destroyed, in this order, and the call reports the failure of ssl.
\<close>

lemma destroy_chain_failing_ssl:
  "esp_transport_destroy_chain (Some 3) (chain_state fail_cb) =
     Some (ESP_FAIL,
           (chain_state fail_cb)\<lparr>heap := Map.empty, world := [3, 2, 1],
              invoked := [(3, ok_cb, ESP_OK), (2, fail_cb, ESP_FAIL), (1, ok_cb, ESP_OK)]\<rparr>)"
  by (simp add: esp_transport_destroy_chain.simps chain_state_def
        call_def layer_def zero_item_def ok_cb_def fail_cb_def fun_eq_iff)

theorem destroy_chain_witness:
  "linked parent (heap (chain_state fail_cb)) (Some 3) [3, 2, 1]
   \<and> (\<exists>e s' l. esp_transport_destroy_chain (Some 3) (chain_state fail_cb) = Some (e, s')
         \<and> heap s' = (\<lambda>x. if x \<in> set [3, 2, 1] then None else heap (chain_state fail_cb) x)
         \<and> lists s' = lists (chain_state fail_cb)
         \<and> invoked s' = invoked (chain_state fail_cb) @ l
         \<and> map call_of l = destroy_calls (heap (chain_state fail_cb)) [3, 2, 1]
         \<and> distinct [3 :: nat, 2, 1]
         \<and> map result_of l =
             fst (run_calls (destroy_calls (heap (chain_state fail_cb)) [3, 2, 1])
                    (world (chain_state fail_cb)))
         \<and> world s' =
             snd (run_calls (destroy_calls (heap (chain_state fail_cb)) [3, 2, 1])
                    (world (chain_state fail_cb)))
         \<and> e = first_failure
                 (fst (run_calls (destroy_calls (heap (chain_state fail_cb)) [3, 2, 1])
                         (world (chain_state fail_cb)))))
   \<and> destroy_calls (heap (chain_state fail_cb)) [3, 2, 1] = [(3, ok_cb), (2, fail_cb), (1, ok_cb)]
   \<and> run_calls [(3, ok_cb), (2, fail_cb), (1, ok_cb)] (world (chain_state fail_cb)) =
       ([ESP_OK, ESP_FAIL, ESP_OK], [3, 2, 1])
   \<and> first_failure [ESP_OK, ESP_FAIL, ESP_OK] = ESP_FAIL
   \<and> esp_transport_destroy_chain (Some 3) (chain_state fail_cb) =
       Some (ESP_FAIL,
             (chain_state fail_cb)\<lparr>heap := Map.empty, world := [3, 2, 1],
                invoked := [(3, ok_cb, ESP_OK), (2, fail_cb, ESP_FAIL), (1, ok_cb, ESP_OK)]\<rparr>)"
proof -
  have h: "linked parent (heap (chain_state fail_cb)) (Some 3) [3, 2, 1]"
    by (rule chain_state_linked)
  have d: "destroy_calls (heap (chain_state fail_cb)) [3, 2, 1] = [(3, ok_cb), (2, fail_cb), (1, ok_cb)]"
    by (simp add: destroy_calls_Cons destroy_calls_Nil chain_state_def layer_def zero_item_def)
  have r: "run_calls [(3, ok_cb), (2, fail_cb), (1, ok_cb)] (world (chain_state fail_cb)) =
       ([ESP_OK, ESP_FAIL, ESP_OK], [3, 2, 1])"
    by (simp add: chain_state_def ok_cb_def fail_cb_def)
  have f: "first_failure [ESP_OK, ESP_FAIL, ESP_OK] = ESP_FAIL"
    by (simp add: first_failure_def)
  show ?thesis
    using h d r f destroy_chain_failing_ssl destroy_chain_visits_all_returns_first_error [OF h]
    by (intro conjI)
qed

section \<open>Chain-wide execute\<close>

text \<open>
  C3. For every live node \<open>a\<close> with parent chain \<open>as\<close> and every operation \<open>f\<close>,
  \<open>esp_transport_chain_execute\<close> with \<open>aggregate_errors = false\<close> returns. It
  applies \<open>f\<close>, and nothing else, to a non-empty initial part of the chain, in chain
  order from \<open>a\<close> toward the root: the log grows by these applications, the results
  logged are what \<open>f\<close> returns when applied in this order, and the world is the one
  these applications leave. Every application but the last returned \<open>ESP_OK\<close>; the
  result of the call is what the last application returned; and when the result is
  \<open>ESP_OK\<close> the whole chain was visited. So the walk stops at the first failing
  node, returns its error, and passes no node beyond it to \<open>f\<close>. The nodes and the
  lists are left as they were.
\<close>

theorem chain_execute_fail_fast:
  assumes "linked parent (heap s) (Some a) as"
  shows "\<exists>e s' l. esp_transport_chain_execute (Some a) (Some f) False s = Some (e, s')
     \<and> heap s' = heap s \<and> lists s' = lists s
     \<and> invoked s' = invoked s @ l
     \<and> l \<noteq> [] \<and> map call_of l = map (\<lambda>b. (b, f)) (take (length l) as)
     \<and> map result_of l = fst (run_calls (map (\<lambda>b. (b, f)) (take (length l) as)) (world s))
     \<and> world s' = snd (run_calls (map (\<lambda>b. (b, f)) (take (length l) as)) (world s))
     \<and> (\<forall>c \<in> set (butlast l). result_of c = ESP_OK)
     \<and> e = result_of (last l)
     \<and> (e = ESP_OK \<longrightarrow> length l = length as)"
  using assms
proof (induction as arbitrary: a s)
  case Nil
  then show ?case by simp
next
  case (Cons b as)
  from Cons.prems obtain it where ab: "b = a" and it: "heap s a = Some it"
    and tl: "linked parent (heap s) (parent it) as"
    by (auto split: option.splits)
  obtain err s1 where c: "call f a s = (err, s1)" by (cases "call f a s")
  have s1: "heap s1 = heap s" "lists s1 = lists s" "invoked s1 = invoked s @ [(a, f, err)]"
    "world s1 = snd (f a (world s))" "err = fst (f a (world s))"
    using call_simps(2,3,4,5)[of f a s] call_simps(1)[of f a s] c by simp_all
  show ?case
  proof (cases "err \<noteq> ESP_OK")
    case True
    then have "esp_transport_chain_execute (Some a) (Some f) False s = Some (err, s1)"
      by (subst esp_transport_chain_execute.simps) (simp add: it c)
    then show ?thesis using s1 ab True
      by (intro exI[of _ err] exI[of _ s1] exI[of _ "[(a, f, err)]"]) (simp add: Let_def)
  next
    case False
    then have err: "err = ESP_OK" by simp
    show ?thesis
    proof (cases "parent it")
      case None
      with tl have as: "as = []" by (cases as) auto
      have "esp_transport_chain_execute (Some a) (Some f) False s = Some (ESP_OK, s1)"
        by (subst esp_transport_chain_execute.simps) (simp add: it c err None)
      then show ?thesis using s1 ab as err
        by (intro exI[of _ ESP_OK] exI[of _ s1] exI[of _ "[(a, f, ESP_OK)]"]) (simp add: Let_def)
    next
      case (Some p)
      from tl Some have "linked parent (heap s1) (Some p) as" by (simp add: s1)
      from Cons.IH[OF this] obtain e s' l where
        ex: "esp_transport_chain_execute (Some p) (Some f) False s1 = Some (e, s')"
        and fr: "heap s' = heap s1" "lists s' = lists s1"
        and inv: "invoked s' = invoked s1 @ l"
        and l: "l \<noteq> []" "map call_of l = map (\<lambda>b. (b, f)) (take (length l) as)"
            "map result_of l = fst (run_calls (map (\<lambda>b. (b, f)) (take (length l) as)) (world s1))"
            "world s' = snd (run_calls (map (\<lambda>b. (b, f)) (take (length l) as)) (world s1))"
            "\<forall>c \<in> set (butlast l). result_of c = ESP_OK"
            "e = result_of (last l)" "e = ESP_OK \<longrightarrow> length l = length as"
        by blast
      have "esp_transport_chain_execute (Some a) (Some f) False s = Some (e, s')"
        by (subst esp_transport_chain_execute.simps) (simp add: it c err Some ex)
      then show ?thesis using s1 ab err fr inv l
        by (intro exI[of _ e] exI[of _ s'] exI[of _ "(a, f, ESP_OK) # l"]) (simp add: Let_def)
    qed
  qed
qed

text \<open>
  On the chain ws, ssl, tcp: \<open>second_fails\<close> fails on its second application, so
  the fail-fast walk applies it to ws and ssl only and returns \<open>ESP_FAIL\<close>;
  \<open>ok_cb\<close> never fails, so the walk visits the whole chain and returns \<open>ESP_OK\<close>.
\<close>

lemma ok_fail_fast:
  "esp_transport_chain_execute (Some 3) (Some ok_cb) False (chain_state ok_cb) =
     Some (ESP_OK, (chain_state ok_cb)\<lparr>world := [3, 2, 1],
                      invoked := [(3, ok_cb, ESP_OK), (2, ok_cb, ESP_OK), (1, ok_cb, ESP_OK)]\<rparr>)"
  by (simp add: esp_transport_chain_execute.simps chain_state_def layer_def zero_item_def
        call_def ok_cb_def)

lemma second_fails_fail_fast:
  "esp_transport_chain_execute (Some 3) (Some second_fails) False (chain_state ok_cb) =
     Some (ESP_FAIL, (chain_state ok_cb)\<lparr>world := [3, 2],
                        invoked := [(3, second_fails, ESP_OK), (2, second_fails, ESP_FAIL)]\<rparr>)"
  by (simp add: esp_transport_chain_execute.simps chain_state_def layer_def zero_item_def
        call_def second_fails_def)

theorem chain_execute_fail_fast_witness:
  "linked parent (heap (chain_state ok_cb)) (Some 3) [3, 2, 1]
   \<and> (\<exists>e s' l. esp_transport_chain_execute (Some 3) (Some second_fails) False (chain_state ok_cb)
                  = Some (e, s')
         \<and> heap s' = heap (chain_state ok_cb) \<and> lists s' = lists (chain_state ok_cb)
         \<and> invoked s' = invoked (chain_state ok_cb) @ l
         \<and> l \<noteq> [] \<and> map call_of l = map (\<lambda>b. (b, second_fails)) (take (length l) [3, 2, 1])
         \<and> map result_of l =
             fst (run_calls (map (\<lambda>b. (b, second_fails)) (take (length l) [3, 2, 1]))
                    (world (chain_state ok_cb)))
         \<and> world s' =
             snd (run_calls (map (\<lambda>b. (b, second_fails)) (take (length l) [3, 2, 1]))
                    (world (chain_state ok_cb)))
         \<and> (\<forall>c \<in> set (butlast l). result_of c = ESP_OK)
         \<and> e = result_of (last l)
         \<and> (e = ESP_OK \<longrightarrow> length l = length [3 :: nat, 2, 1]))
   \<and> esp_transport_chain_execute (Some 3) (Some second_fails) False (chain_state ok_cb) =
       Some (ESP_FAIL, (chain_state ok_cb)\<lparr>world := [3, 2],
                          invoked := [(3, second_fails, ESP_OK), (2, second_fails, ESP_FAIL)]\<rparr>)
   \<and> run_calls (map (\<lambda>b. (b, second_fails)) (take 2 [3, 2, 1])) (world (chain_state ok_cb)) =
       ([ESP_OK, ESP_FAIL], [3, 2])
   \<and> (\<exists>s' l. esp_transport_chain_execute (Some 3) (Some ok_cb) False (chain_state ok_cb)
                = Some (ESP_OK, s')
         \<and> invoked s' = invoked (chain_state ok_cb) @ l
         \<and> map call_of l = map (\<lambda>b. (b, ok_cb)) (take (length l) [3, 2, 1])
         \<and> length l = length [3 :: nat, 2, 1])
   \<and> esp_transport_chain_execute (Some 3) (Some ok_cb) False (chain_state ok_cb) =
       Some (ESP_OK, (chain_state ok_cb)\<lparr>world := [3, 2, 1],
                        invoked := [(3, ok_cb, ESP_OK), (2, ok_cb, ESP_OK), (1, ok_cb, ESP_OK)]\<rparr>)"
proof -
  have h: "linked parent (heap (chain_state ok_cb)) (Some 3) [3, 2, 1]"
    by (rule chain_state_linked)
  have r: "run_calls (map (\<lambda>b. (b, second_fails)) (take 2 [3, 2, 1])) (world (chain_state ok_cb)) =
       ([ESP_OK, ESP_FAIL], [3, 2])"
    by (simp add: chain_state_def second_fails_def)
  from chain_execute_fail_fast [OF h, of ok_cb]
  have k: "\<exists>s' l. esp_transport_chain_execute (Some 3) (Some ok_cb) False (chain_state ok_cb)
                = Some (ESP_OK, s')
         \<and> invoked s' = invoked (chain_state ok_cb) @ l
         \<and> map call_of l = map (\<lambda>b. (b, ok_cb)) (take (length l) [3, 2, 1])
         \<and> length l = length [3 :: nat, 2, 1]"
    unfolding ok_fail_fast by auto
  show ?thesis
    using h r k ok_fail_fast second_fails_fail_fast chain_execute_fail_fast [OF h, of second_fails]
    by (intro conjI)
qed

text \<open>
  C4. For every live node \<open>a\<close> with parent chain \<open>as\<close> and every operation \<open>f\<close>,
  \<open>esp_transport_chain_execute\<close> with \<open>aggregate_errors = true\<close> returns. It
  applies \<open>f\<close> to every node of the chain, in chain order, whatever the applications
  return: the log grows by these applications, the results logged are what \<open>f\<close>
  returns when applied in this order, and the world is the one these applications
  leave. The result of the call is the last of these results that is not \<open>ESP_OK\<close>
  (the failure closest to the root), or \<open>ESP_OK\<close> when no application failed. The
  nodes and the lists are left as they were.
\<close>

theorem chain_execute_aggregate:
  assumes "linked parent (heap s) (Some a) as"
  shows "\<exists>e s' l. esp_transport_chain_execute (Some a) (Some f) True s = Some (e, s')
     \<and> heap s' = heap s \<and> lists s' = lists s
     \<and> invoked s' = invoked s @ l
     \<and> map call_of l = map (\<lambda>b. (b, f)) as
     \<and> map result_of l = fst (run_calls (map (\<lambda>b. (b, f)) as) (world s))
     \<and> world s' = snd (run_calls (map (\<lambda>b. (b, f)) as) (world s))
     \<and> e = last_failure (fst (run_calls (map (\<lambda>b. (b, f)) as) (world s)))"
  using assms
proof (induction as arbitrary: a s)
  case Nil
  then show ?case by simp
next
  case (Cons b as)
  from Cons.prems obtain it where ab: "b = a" and it: "heap s a = Some it"
    and tl: "linked parent (heap s) (parent it) as"
    by (auto split: option.splits)
  obtain err s1 where c: "call f a s = (err, s1)" by (cases "call f a s")
  have s1: "heap s1 = heap s" "lists s1 = lists s" "invoked s1 = invoked s @ [(a, f, err)]"
    "world s1 = snd (f a (world s))" "err = fst (f a (world s))"
    using call_simps(2,3,4,5)[of f a s] call_simps(1)[of f a s] c by simp_all
  show ?case
  proof (cases "parent it")
    case None
    with tl have as: "as = []" by (cases as) auto
    have "esp_transport_chain_execute (Some a) (Some f) True s = Some (err, s1)"
      by (subst esp_transport_chain_execute.simps) (simp add: it c None)
    then show ?thesis using s1 ab as
      by (intro exI[of _ err] exI[of _ s1] exI[of _ "[(a, f, err)]"])
         (simp add: last_failure_def Let_def)
  next
    case (Some p)
    from tl Some have "linked parent (heap s1) (Some p) as" by (simp add: s1)
    from Cons.IH[OF this] obtain e s' l where
      ex: "esp_transport_chain_execute (Some p) (Some f) True s1 = Some (e, s')"
      and fr: "heap s' = heap s1" "lists s' = lists s1"
      and inv: "invoked s' = invoked s1 @ l"
      and l: "map call_of l = map (\<lambda>b. (b, f)) as"
        "map result_of l = fst (run_calls (map (\<lambda>b. (b, f)) as) (world s1))"
        "world s' = snd (run_calls (map (\<lambda>b. (b, f)) as) (world s1))"
        "e = last_failure (fst (run_calls (map (\<lambda>b. (b, f)) as) (world s1)))"
      by blast
    have "esp_transport_chain_execute (Some a) (Some f) True s =
            Some (if e \<noteq> ESP_OK then e else err, s')"
      by (subst esp_transport_chain_execute.simps) (simp add: it c Some ex)
    then show ?thesis using s1 ab fr inv l
      by (intro exI[of _ "if e \<noteq> ESP_OK then e else err"] exI[of _ s']
            exI[of _ "(a, f, err) # l"])
         (simp add: last_failure_Cons Let_def)
  qed
qed

text \<open>
  The same chain with \<open>aggregate_errors = true\<close>: with \<open>probe\<close>, which fails on
  ssl only, all three nodes are visited and the call returns the failure of ssl;
  with \<open>ok_cb\<close> all three are visited and the call returns \<open>ESP_OK\<close>.
\<close>

lemma probe_aggregate:
  "esp_transport_chain_execute (Some 3) (Some probe) True (chain_state ok_cb) =
     Some (ESP_FAIL, (chain_state ok_cb)\<lparr>world := [3, 2, 1],
                        invoked := [(3, probe, ESP_OK), (2, probe, ESP_FAIL), (1, probe, ESP_OK)]\<rparr>)"
  by (simp add: esp_transport_chain_execute.simps chain_state_def layer_def zero_item_def
        call_def probe_def)

lemma ok_aggregate:
  "esp_transport_chain_execute (Some 3) (Some ok_cb) True (chain_state ok_cb) =
     Some (ESP_OK, (chain_state ok_cb)\<lparr>world := [3, 2, 1],
                      invoked := [(3, ok_cb, ESP_OK), (2, ok_cb, ESP_OK), (1, ok_cb, ESP_OK)]\<rparr>)"
  by (simp add: esp_transport_chain_execute.simps chain_state_def layer_def zero_item_def
        call_def ok_cb_def)

theorem chain_execute_aggregate_witness:
  "linked parent (heap (chain_state ok_cb)) (Some 3) [3, 2, 1]
   \<and> (\<exists>e s' l. esp_transport_chain_execute (Some 3) (Some probe) True (chain_state ok_cb) = Some (e, s')
         \<and> heap s' = heap (chain_state ok_cb) \<and> lists s' = lists (chain_state ok_cb)
         \<and> invoked s' = invoked (chain_state ok_cb) @ l
         \<and> map call_of l = map (\<lambda>b. (b, probe)) [3, 2, 1]
         \<and> map result_of l =
             fst (run_calls (map (\<lambda>b. (b, probe)) [3, 2, 1]) (world (chain_state ok_cb)))
         \<and> world s' =
             snd (run_calls (map (\<lambda>b. (b, probe)) [3, 2, 1]) (world (chain_state ok_cb)))
         \<and> e = last_failure
                 (fst (run_calls (map (\<lambda>b. (b, probe)) [3, 2, 1]) (world (chain_state ok_cb)))))
   \<and> run_calls (map (\<lambda>b. (b, probe)) [3, 2, 1]) (world (chain_state ok_cb)) =
       ([ESP_OK, ESP_FAIL, ESP_OK], [3, 2, 1])
   \<and> last_failure [ESP_OK, ESP_FAIL, ESP_OK] = ESP_FAIL
   \<and> esp_transport_chain_execute (Some 3) (Some probe) True (chain_state ok_cb) =
       Some (ESP_FAIL, (chain_state ok_cb)\<lparr>world := [3, 2, 1],
                          invoked := [(3, probe, ESP_OK), (2, probe, ESP_FAIL), (1, probe, ESP_OK)]\<rparr>)
   \<and> esp_transport_chain_execute (Some 3) (Some ok_cb) True (chain_state ok_cb) =
       Some (ESP_OK, (chain_state ok_cb)\<lparr>world := [3, 2, 1],
                        invoked := [(3, ok_cb, ESP_OK), (2, ok_cb, ESP_OK), (1, ok_cb, ESP_OK)]\<rparr>)"
proof -
  have h: "linked parent (heap (chain_state ok_cb)) (Some 3) [3, 2, 1]"
    by (rule chain_state_linked)
  have r: "run_calls (map (\<lambda>b. (b, probe)) [3, 2, 1]) (world (chain_state ok_cb)) =
       ([ESP_OK, ESP_FAIL, ESP_OK], [3, 2, 1])"
    by (simp add: chain_state_def probe_def)
  have f: "last_failure [ESP_OK, ESP_FAIL, ESP_OK] = ESP_FAIL"
    by (simp add: last_failure_def)
  show ?thesis
    using h r f probe_aggregate ok_aggregate chain_execute_aggregate [OF h, of probe]
    by (intro conjI)
qed

section \<open>The registry\<close>

lemma destroy_single:
  "heap s a = Some it \<Longrightarrow>
   \<exists>s' l. esp_transport_destroy (Some a) s = Some s'
     \<and> heap s' = (heap s)(a := None) \<and> lists s' = lists s
     \<and> invoked s' = invoked s @ l
     \<and> map call_of l = destroy_calls (heap s) [a]
     \<and> map result_of l = fst (run_calls (destroy_calls (heap s) [a]) (world s))
     \<and> world s' = snd (run_calls (destroy_calls (heap s) [a]) (world s))"
  by (cases "f_destroy it")
     (simp_all add: esp_transport_destroy_def call_simps destroy_calls_Cons destroy_calls_Nil
        Let_def)

text \<open>
  The loop of \<open>esp_transport_list_clean\<close> over the entries \<open>as\<close>: it returns, every
  entry is left as \<open>clean_item\<close> says, and the calls made are the destroy callbacks
  of the entries tagged exclusive, each node's own, in list order: they are what
  the log grows by, what the logged results come from and what the world is
  changed by.
\<close>

lemma list_clean_loop_linked:
  "linked stq_next (heap s) item as \<Longrightarrow>
   \<exists>s' l. list_clean_loop item s = Some s'
     \<and> heap s' = (\<lambda>x. if x \<in> set as then Option.bind (heap s x) clean_item else heap s x)
     \<and> lists s' = lists s
     \<and> invoked s' = invoked s @ l
     \<and> map call_of l = destroy_calls (heap s) (filter (exclusive (heap s)) as)
     \<and> map result_of l =
         fst (run_calls (destroy_calls (heap s) (filter (exclusive (heap s)) as)) (world s))
     \<and> world s' =
         snd (run_calls (destroy_calls (heap s) (filter (exclusive (heap s)) as)) (world s))"
proof (induction as arbitrary: item s)
  case Nil
  then show ?case
    by (subst list_clean_loop.simps) (simp add: destroy_calls_Nil)
next
  case (Cons a as)
  from Cons.prems obtain it where item: "item = Some a" and it: "heap s a = Some it"
    and tl: "linked stq_next (heap s) (stq_next it) as"
    by (auto split: option.splits)
  from Cons.prems have "distinct (a # as)" by (rule linked_distinct)
  then have notin: "a \<notin> set as" by simp
  define step where "step = (if ownership it = ESP_TRANSPORT_OWNERSHIP_EXCLUSIVE
                     then esp_transport_destroy (Some a) s
                     else Some (s\<lparr>heap := (heap s)(a \<mapsto> it\<lparr>scheme := None\<rparr>)\<rparr>))"
  define cs0 where "cs0 = destroy_calls (heap s) (filter (exclusive (heap s)) [a])"
  define cs where "cs = destroy_calls (heap s) (filter (exclusive (heap s)) as)"
  have "\<exists>s1 l0. step = Some s1 \<and> heap s1 = (heap s)(a := clean_item it) \<and> lists s1 = lists s
          \<and> invoked s1 = invoked s @ l0
          \<and> map call_of l0 = cs0
          \<and> map result_of l0 = fst (run_calls cs0 (world s))
          \<and> world s1 = snd (run_calls cs0 (world s))"
  proof (cases "ownership it = ESP_TRANSPORT_OWNERSHIP_EXCLUSIVE")
    case True
    with destroy_single[OF it] it show ?thesis
      by (auto simp: step_def clean_item_def exclusive_def cs0_def)
  next
    case False
    with it show ?thesis
      by (simp add: step_def clean_item_def exclusive_def destroy_calls_Nil cs0_def)
  qed
  then obtain s1 l0 where step: "step = Some s1"
    and s1: "heap s1 = (heap s)(a := clean_item it)" "lists s1 = lists s"
            "invoked s1 = invoked s @ l0"
    and l0: "map call_of l0 = cs0" "map result_of l0 = fst (run_calls cs0 (world s))"
            "world s1 = snd (run_calls cs0 (world s))"
    by blast
  from tl notin have "linked stq_next (heap s1) (stq_next it) as"
    by (simp add: s1 linked_upd)
  from Cons.IH[OF this] obtain s' l where
    loop: "list_clean_loop (stq_next it) s1 = Some s'"
    and fr: "heap s' = (\<lambda>x. if x \<in> set as then Option.bind (heap s1 x) clean_item else heap s1 x)"
            "lists s' = lists s1" "invoked s' = invoked s1 @ l"
    and l: "map call_of l = destroy_calls (heap s1) (filter (exclusive (heap s1)) as)"
      "map result_of l =
         fst (run_calls (destroy_calls (heap s1) (filter (exclusive (heap s1)) as)) (world s1))"
      "world s' =
         snd (run_calls (destroy_calls (heap s1) (filter (exclusive (heap s1)) as)) (world s1))"
    by blast
  have ex: "filter (exclusive (heap s1)) as = filter (exclusive (heap s)) as"
    using notin by (intro filter_cong) (auto simp: s1 exclusive_def)
  have dc: "destroy_calls (heap s1) (filter (exclusive (heap s)) as) = cs"
    using notin by (simp add: s1 destroy_calls_upd cs_def)
  have app: "destroy_calls (heap s) (filter (exclusive (heap s)) (a # as)) = cs0 @ cs"
    unfolding cs0_def cs_def destroy_calls_append[symmetric] by simp
  have l': "map call_of l = cs" "map result_of l = fst (run_calls cs (world s1))"
    "world s' = snd (run_calls cs (world s1))"
    using l by (simp_all only: ex dc)
  have "list_clean_loop item s = Some s'"
    by (subst list_clean_loop.simps) (simp add: item it step[unfolded step_def] loop)
  moreover have "heap s' =
      (\<lambda>x. if x \<in> set (a # as) then Option.bind (heap s x) clean_item else heap s x)"
    using notin it by (auto simp: fr s1)
  moreover have "map call_of (l0 @ l) = cs0 @ cs"
    by (simp only: map_append l'(1) l0(1))
  moreover have "run_calls (cs0 @ cs) (world s) = (map result_of (l0 @ l), world s')"
    by (simp add: run_calls_append l0 l')
  ultimately show ?case using fr s1 unfolding app
    by (intro exI[of _ s'] exI[of _ "l0 @ l"]) simp
qed

lemma registered_state_linked: "linked stq_next (heap registered_state) (Some 1) [1, 2, 3]"
  by (simp add: registered_state_def tcp_registered_def ssl_registered_def ws_registered_def
        layer_def zero_item_def)

text \<open>
  C7. Let \<open>b\<close> be an entry of a well-formed registry (the entries \<open>as\<close> are linked
  from the head through live nodes) and \<open>it\<close> its node. \<open>esp_transport_list_clean\<close>
  returns \<open>ESP_OK\<close>. The calls it makes are the destroy callbacks of the entries
  tagged exclusive, each node's own, in list order, and nothing else: the log
  grows by them, the logged results are what they return, and the world is the one
  they leave. If \<open>b\<close> is tagged none, the node is afterwards the node as it was with
  the scheme label released and nothing else changed, and no call is made on it.
  If \<open>b\<close> is tagged exclusive, the node is freed and the calls made on it are its
  own destroy callback, once (none when it has none). All other nodes and all other
  lists are left as they were, and the list itself is empty.
\<close>

theorem list_clean_respects_ownership:
  assumes "lists s hp = Some hq"
    and "linked stq_next (heap s) (stqh_first hq) as"
    and "b \<in> set as" and "heap s b = Some it"
  shows "\<exists>s' l. esp_transport_list_clean (Some hp) s = Some (ESP_OK, s')
     \<and> heap s' = (\<lambda>x. if x \<in> set as then Option.bind (heap s x) clean_item else heap s x)
     \<and> lists s' = (lists s)(hp \<mapsto> \<lparr>stqh_first = None, stqh_last = None\<rparr>)
     \<and> invoked s' = invoked s @ l
     \<and> map call_of l = destroy_calls (heap s) (filter (exclusive (heap s)) as)
     \<and> map result_of l =
         fst (run_calls (destroy_calls (heap s) (filter (exclusive (heap s)) as)) (world s))
     \<and> world s' =
         snd (run_calls (destroy_calls (heap s) (filter (exclusive (heap s)) as)) (world s))
     \<and> (ownership it = ESP_TRANSPORT_OWNERSHIP_NONE \<longrightarrow>
          heap s' b = Some (it\<lparr>scheme := None\<rparr>) \<and> b \<notin> fst ` set l
          \<and> b \<notin> fst ` set (destroy_calls (heap s) (filter (exclusive (heap s)) as)))
     \<and> (ownership it = ESP_TRANSPORT_OWNERSHIP_EXCLUSIVE \<longrightarrow>
          heap s' b = None
          \<and> map call_of (filter (\<lambda>c. fst c = b) l) =
              (case f_destroy it of None \<Rightarrow> [] | Some d \<Rightarrow> [(b, d)])
          \<and> filter (\<lambda>c. fst c = b) (destroy_calls (heap s) (filter (exclusive (heap s)) as)) =
              (case f_destroy it of None \<Rightarrow> [] | Some d \<Rightarrow> [(b, d)]))"
proof -
  define cs where "cs = destroy_calls (heap s) (filter (exclusive (heap s)) as)"
  from list_clean_loop_linked[OF assms(2)] obtain s1 l where
    loop: "list_clean_loop (stqh_first hq) s = Some s1"
    and hp1: "heap s1 = (\<lambda>x. if x \<in> set as then Option.bind (heap s x) clean_item else heap s x)"
    and ls1: "lists s1 = lists s" and inv1: "invoked s1 = invoked s @ l"
    and l: "map call_of l = cs" "map result_of l = fst (run_calls cs (world s))"
      "world s1 = snd (run_calls cs (world s))"
    unfolding cs_def by blast
  define s' where "s' = s1\<lparr>lists := (lists s1)(hp \<mapsto> \<lparr>stqh_first = None, stqh_last = None\<rparr>)\<rparr>"
  have clean: "esp_transport_list_clean (Some hp) s = Some (ESP_OK, s')"
    by (simp add: esp_transport_list_clean_def assms(1) loop STAILQ_INIT_def ls1 s'_def)
  have st: "heap s' = heap s1" "world s' = world s1" "invoked s' = invoked s1"
    "lists s' = (lists s)(hp \<mapsto> \<lparr>stqh_first = None, stqh_last = None\<rparr>)"
    by (simp_all add: s'_def ls1)
  have hb: "heap s' b = clean_item it"
    using assms(3,4) by (simp add: st hp1)
  have dist: "distinct as" using assms(2) by (rule linked_distinct)
  have none: "b \<notin> fst ` set cs" if "ownership it = ESP_TRANSPORT_OWNERSHIP_NONE"
  proof -
    have "fst ` set cs \<subseteq> set (filter (exclusive (heap s)) as)"
      unfolding cs_def by (rule destroy_calls_fst)
    then show ?thesis using that assms(4) by (auto simp: exclusive_def)
  qed
  have lcs: "fst ` set l = fst ` set cs"
    using fst_call_of[of l] by (simp only: l(1))
  have excl: "filter (\<lambda>c. fst c = b) cs =
            (case f_destroy it of None \<Rightarrow> [] | Some d \<Rightarrow> [(b, d)])"
    if "ownership it = ESP_TRANSPORT_OWNERSHIP_EXCLUSIVE"
  proof -
    have "filter (\<lambda>x. x = b) (filter (exclusive (heap s)) as) = [b]"
      using that assms(3,4) dist by (intro filter_eq_distinct) (auto simp: exclusive_def)
    then show ?thesis
      using assms(4)
      by (simp add: cs_def destroy_calls_filter destroy_calls_Cons destroy_calls_Nil)
  qed
  have lf: "map call_of (filter (\<lambda>c. fst c = b) l) = filter (\<lambda>c. fst c = b) cs"
    by (simp only: call_of_filter l(1))
  have a1: "ownership it = ESP_TRANSPORT_OWNERSHIP_NONE \<longrightarrow>
          heap s' b = Some (it\<lparr>scheme := None\<rparr>) \<and> b \<notin> fst ` set l \<and> b \<notin> fst ` set cs"
    using hb none lcs by (auto simp: clean_item_def)
  have a2: "ownership it = ESP_TRANSPORT_OWNERSHIP_EXCLUSIVE \<longrightarrow>
          heap s' b = None
          \<and> map call_of (filter (\<lambda>c. fst c = b) l) =
              (case f_destroy it of None \<Rightarrow> [] | Some d \<Rightarrow> [(b, d)])
          \<and> filter (\<lambda>c. fst c = b) cs =
              (case f_destroy it of None \<Rightarrow> [] | Some d \<Rightarrow> [(b, d)])"
    using hb excl lf by (auto simp: clean_item_def)
  have "esp_transport_list_clean (Some hp) s = Some (ESP_OK, s')
     \<and> heap s' = (\<lambda>x. if x \<in> set as then Option.bind (heap s x) clean_item else heap s x)
     \<and> lists s' = (lists s)(hp \<mapsto> \<lparr>stqh_first = None, stqh_last = None\<rparr>)
     \<and> invoked s' = invoked s @ l
     \<and> map call_of l = cs
     \<and> map result_of l = fst (run_calls cs (world s))
     \<and> world s' = snd (run_calls cs (world s))"
    using clean st hp1 inv1 l by simp
  with a1 a2 show ?thesis
    unfolding cs_def by (intro exI[of _ s'] exI[of _ l]) blast
qed

text \<open>
  In the registered chain tcp (entry 1) is tagged none and ws (entry 3) exclusive:
  cleaning leaves tcp and ssl in place without their labels and frees ws after its
  own destroy callback, the only call made.
\<close>

lemma clean_registered:
  "esp_transport_list_clean (Some 10) registered_state =
     Some (ESP_OK,
           \<lparr>heap = [1 \<mapsto> tcp_registered\<lparr>scheme := None\<rparr>, 2 \<mapsto> ssl_registered\<lparr>scheme := None\<rparr>],
            lists = [10 \<mapsto> \<lparr>stqh_first = None, stqh_last = None\<rparr>],
            world = [3],
            invoked = [(3, ok_cb, ESP_OK)]\<rparr>)"
  by (simp add: registered_state_def tcp_registered_def ssl_registered_def ws_registered_def
        esp_transport_list_clean_def list_clean_loop.simps
        esp_transport_destroy_def call_def STAILQ_INIT_def layer_def zero_item_def ok_cb_def
        fun_eq_iff)

theorem list_clean_respects_ownership_witness:
  "lists registered_state 10 = Some \<lparr>stqh_first = Some 1, stqh_last = Some 3\<rparr>
   \<and> linked stq_next (heap registered_state) (stqh_first \<lparr>stqh_first = Some 1, stqh_last = Some 3\<rparr>) [1, 2, 3]
   \<and> 1 \<in> set [1 :: nat, 2, 3] \<and> heap registered_state 1 = Some tcp_registered
   \<and> ownership tcp_registered = ESP_TRANSPORT_OWNERSHIP_NONE
   \<and> (\<exists>s' l. esp_transport_list_clean (Some 10) registered_state = Some (ESP_OK, s')
         \<and> invoked s' = invoked registered_state @ l
         \<and> world s' =
             snd (run_calls
                    (destroy_calls (heap registered_state)
                       (filter (exclusive (heap registered_state)) [1, 2, 3]))
                    (world registered_state))
         \<and> heap s' 1 = Some (tcp_registered\<lparr>scheme := None\<rparr>) \<and> 1 \<notin> fst ` set l)
   \<and> 3 \<in> set [1 :: nat, 2, 3] \<and> heap registered_state 3 = Some ws_registered
   \<and> ownership ws_registered = ESP_TRANSPORT_OWNERSHIP_EXCLUSIVE
   \<and> (\<exists>s' l. esp_transport_list_clean (Some 10) registered_state = Some (ESP_OK, s')
         \<and> invoked s' = invoked registered_state @ l
         \<and> heap s' 3 = None
         \<and> map call_of (filter (\<lambda>c. fst c = 3) l) = [(3, ok_cb)])
   \<and> destroy_calls (heap registered_state) (filter (exclusive (heap registered_state)) [1, 2, 3])
       = [(3, ok_cb)]
   \<and> run_calls [(3, ok_cb)] (world registered_state) = ([ESP_OK], [3])
   \<and> esp_transport_list_clean (Some 10) registered_state =
       Some (ESP_OK,
             \<lparr>heap = [1 \<mapsto> tcp_registered\<lparr>scheme := None\<rparr>, 2 \<mapsto> ssl_registered\<lparr>scheme := None\<rparr>],
              lists = [10 \<mapsto> \<lparr>stqh_first = None, stqh_last = None\<rparr>],
              world = [3],
              invoked = [(3, ok_cb, ESP_OK)]\<rparr>)"
proof -
  have h1: "lists registered_state 10 = Some \<lparr>stqh_first = Some 1, stqh_last = Some 3\<rparr>"
    by (simp add: registered_state_def)
  have h2: "linked stq_next (heap registered_state)
              (stqh_first \<lparr>stqh_first = Some 1, stqh_last = Some 3\<rparr>) [1, 2, 3]"
    using registered_state_linked by simp
  have t3: "1 \<in> set [1 :: nat, 2, 3]" and w3: "3 \<in> set [1 :: nat, 2, 3]" by simp_all
  have t4: "heap registered_state 1 = Some tcp_registered"
    and w4: "heap registered_state 3 = Some ws_registered"
    by (simp_all add: registered_state_def)
  have t5: "ownership tcp_registered = ESP_TRANSPORT_OWNERSHIP_NONE"
    by (simp add: tcp_registered_def)
  have w5: "ownership ws_registered = ESP_TRANSPORT_OWNERSHIP_EXCLUSIVE"
    and w6: "f_destroy ws_registered = Some ok_cb"
    by (simp_all add: ws_registered_def layer_def)
  have d: "destroy_calls (heap registered_state)
             (filter (exclusive (heap registered_state)) [1, 2, 3]) = [(3, ok_cb)]"
    by (simp add: destroy_calls_Cons destroy_calls_Nil exclusive_def registered_state_def
          tcp_registered_def ssl_registered_def ws_registered_def layer_def zero_item_def)
  have r: "run_calls [(3, ok_cb)] (world registered_state) = ([ESP_OK], [3])"
    by (simp add: registered_state_def ok_cb_def)
  from list_clean_respects_ownership [OF h1 h2 t3 t4]
  have tcp: "\<exists>s' l. esp_transport_list_clean (Some 10) registered_state = Some (ESP_OK, s')
         \<and> invoked s' = invoked registered_state @ l
         \<and> world s' =
             snd (run_calls
                    (destroy_calls (heap registered_state)
                       (filter (exclusive (heap registered_state)) [1, 2, 3]))
                    (world registered_state))
         \<and> heap s' 1 = Some (tcp_registered\<lparr>scheme := None\<rparr>) \<and> 1 \<notin> fst ` set l"
    using t5 by blast
  from list_clean_respects_ownership [OF h1 h2 w3 w4]
  have ws: "\<exists>s' l. esp_transport_list_clean (Some 10) registered_state = Some (ESP_OK, s')
         \<and> invoked s' = invoked registered_state @ l
         \<and> heap s' 3 = None
         \<and> map call_of (filter (\<lambda>c. fst c = 3) l) = [(3, ok_cb)]"
    using w5 w6 by (elim exE conjE) (auto simp: w5 w6)
  show ?thesis
    using h1 h2 t3 t4 t5 tcp w3 w4 w5 ws d r clean_registered by (intro conjI)
qed

text \<open>
  C9. For every live registry whose entries are linked through live nodes,
  \<open>esp_transport_list_clean\<close> returns \<open>ESP_OK\<close> and leaves the registry with the
  empty head, so with no entry, whatever the ownership tags of the entries are and
  whatever the destroy callbacks return.
\<close>

theorem list_clean_empties_registry:
  assumes "lists s hp = Some hq"
    and "linked stq_next (heap s) (stqh_first hq) as"
  shows "\<exists>s'. esp_transport_list_clean (Some hp) s = Some (ESP_OK, s')
     \<and> lists s' hp = Some \<lparr>stqh_first = None, stqh_last = None\<rparr>
     \<and> linked stq_next (heap s') (Option.bind (lists s' hp) stqh_first) []"
proof -
  from list_clean_loop_linked[OF assms(2)] obtain s1 where
    loop: "list_clean_loop (stqh_first hq) s = Some s1" and ls1: "lists s1 = lists s"
    by blast
  then show ?thesis
    by (simp add: esp_transport_list_clean_def assms(1) STAILQ_INIT_def)
qed

theorem list_clean_empties_registry_witness:
  "lists registered_state 10 = Some \<lparr>stqh_first = Some 1, stqh_last = Some 3\<rparr>
   \<and> linked stq_next (heap registered_state) (stqh_first \<lparr>stqh_first = Some 1, stqh_last = Some 3\<rparr>) [1, 2, 3]
   \<and> (\<exists>s'. esp_transport_list_clean (Some 10) registered_state = Some (ESP_OK, s')
         \<and> lists s' 10 = Some \<lparr>stqh_first = None, stqh_last = None\<rparr>
         \<and> linked stq_next (heap s') (Option.bind (lists s' 10) stqh_first) [])"
proof -
  have h1: "lists registered_state 10 = Some \<lparr>stqh_first = Some 1, stqh_last = Some 3\<rparr>"
    by (simp add: registered_state_def)
  have h2: "linked stq_next (heap registered_state)
              (stqh_first \<lparr>stqh_first = Some 1, stqh_last = Some 3\<rparr>) [1, 2, 3]"
    using registered_state_linked by simp
  show ?thesis
    using h1 h2 list_clean_empties_registry [OF h1 h2] by (intro conjI)
qed

lemma registered_chain_eq: "registered_chain = Some (ESP_OK, registered_state)"
  by (simp add: registered_chain_def registered_state_def chain_state_def
        tcp_registered_def ssl_registered_def ws_registered_def
        esp_transport_list_add_ex_def STAILQ_INSERT_TAIL_def layer_def zero_item_def fun_upd_twist)

text \<open>
  C1. The chain ws (3) over ssl (2) over tcp (1), tcp and ssl registered with
  ownership none and ws with ownership exclusive, then the full teardown of the
  registry. The teardown returns \<open>ESP_OK\<close> and frees the list head, but the log
  holds one invocation only, the destroy callback of ws: the destroy callbacks of
  ssl and tcp are never invoked, and both nodes stay allocated, with their labels
  released. The claim expects three invocations, on ws, ssl and tcp in this order.
  The destroy callbacks are those of the sources (\<open>ws_destroy_after\<close>): they
  release the layer's own context and leave the parent to the chain walker.
\<close>

theorem registry_teardown_destroys_top_only:
  "(case registry_teardown of
      None \<Rightarrow> False
    | Some (e, s) \<Rightarrow>
        e = ESP_OK \<and> invoked s = [(3, ok_cb, ESP_OK)] \<and> world s = [3] \<and> lists s 10 = None \<and>
        heap s 3 = None \<and>
        heap s 2 = Some (ssl_registered\<lparr>scheme := None\<rparr>) \<and>
        heap s 1 = Some (tcp_registered\<lparr>scheme := None\<rparr>))"
  by (simp add: registry_teardown_def registered_chain_eq registered_state_def
        tcp_registered_def ssl_registered_def ws_registered_def
        esp_transport_list_destroy_def esp_transport_list_clean_def list_clean_loop.simps
        esp_transport_destroy_def call_def STAILQ_INIT_def layer_def zero_item_def ok_cb_def)

text \<open>
  The chain-wide destroy of the same top node, which the registry does not call,
  does invoke the three destroy callbacks in the order ws, ssl, tcp.
\<close>

lemma destroy_chain_of_registered_top:
  "esp_transport_destroy_chain (Some 3) registered_state =
     Some (ESP_OK, registered_state\<lparr>heap := Map.empty, world := [3, 2, 1],
                      invoked := [(3, ok_cb, ESP_OK), (2, ok_cb, ESP_OK), (1, ok_cb, ESP_OK)]\<rparr>)"
  by (simp add: esp_transport_destroy_chain.simps registered_state_def
        tcp_registered_def ssl_registered_def ws_registered_def
        call_def layer_def zero_item_def ok_cb_def fun_eq_iff)

text \<open>
  C8. Whenever \<open>esp_transport_list_add_ex\<close> with a list and a node returns
  \<open>ESP_ERR_NO_MEM\<close>, the allocation of the label copy failed, no list head and no
  list link has changed (the entries of every list are as before), and the state
  differs from the one before the call in the node alone: its \<open>ownership\<close> holds the
  requested value (and its \<open>scheme\<close> pointer the failed allocation's \<open>NULL\<close>).
\<close>

theorem list_add_ex_no_mem_keeps_list_sets_ownership:
  assumes "esp_transport_list_add_ex (Some h) (Some t) scheme_arg ownership_arg calloc_ok s =
             Some (ESP_ERR_NO_MEM, s')"
  shows "\<not> calloc_ok
     \<and> (\<exists>it. heap s t = Some it
           \<and> s' = s\<lparr>heap := (heap s)(t \<mapsto> it\<lparr>ownership := ownership_arg, scheme := None\<rparr>)\<rparr>)
     \<and> lists s' = lists s
     \<and> (\<forall>p as. linked stq_next (heap s') p as = linked stq_next (heap s) p as)
     \<and> map_option ownership (heap s' t) = Some ownership_arg"
proof -
  from assms obtain it where it: "heap s t = Some it"
    by (auto simp: esp_transport_list_add_ex_def split: option.splits)
  from assms it have ok: "\<not> calloc_ok"
    by (auto simp: esp_transport_list_add_ex_def split: if_splits)
  from assms it ok
  have s': "s' = s\<lparr>heap := (heap s)(t \<mapsto> it\<lparr>ownership := ownership_arg, scheme := None\<rparr>)\<rparr>"
    by (simp add: esp_transport_list_add_ex_def)
  have "map_option stq_next (heap s' b) = map_option stq_next (heap s b)" for b
    using it by (simp add: s')
  then have "linked stq_next (heap s') p as = linked stq_next (heap s) p as" for p as
    by (rule linked_same_links)
  with ok it s' show ?thesis by simp
qed

text \<open>
  Registering tcp with a failing label allocation: the call reports
  \<open>ESP_ERR_NO_MEM\<close>, the list is still empty, and the node that was exclusive is
  now tagged none.
\<close>

theorem list_add_ex_no_mem_witness:
  "esp_transport_list_add_ex (Some 10) (Some 1) ''_tcp'' ESP_TRANSPORT_OWNERSHIP_NONE False
       (chain_state ok_cb) =
     Some (ESP_ERR_NO_MEM,
           (chain_state ok_cb)\<lparr>heap := (heap (chain_state ok_cb))
              (1 \<mapsto> (layer ok_cb None)\<lparr>ownership := ESP_TRANSPORT_OWNERSHIP_NONE, scheme := None\<rparr>)\<rparr>)
   \<and> lists ((chain_state ok_cb)\<lparr>heap := (heap (chain_state ok_cb))
              (1 \<mapsto> (layer ok_cb None)\<lparr>ownership := ESP_TRANSPORT_OWNERSHIP_NONE, scheme := None\<rparr>)\<rparr>)
       = lists (chain_state ok_cb)
   \<and> ownership (layer ok_cb None) = ESP_TRANSPORT_OWNERSHIP_EXCLUSIVE"
proof -
  have h: "esp_transport_list_add_ex (Some 10) (Some 1) ''_tcp'' ESP_TRANSPORT_OWNERSHIP_NONE False
       (chain_state ok_cb) =
     Some (ESP_ERR_NO_MEM,
           (chain_state ok_cb)\<lparr>heap := (heap (chain_state ok_cb))
              (1 \<mapsto> (layer ok_cb None)\<lparr>ownership := ESP_TRANSPORT_OWNERSHIP_NONE, scheme := None\<rparr>)\<rparr>)"
    by (simp add: esp_transport_list_add_ex_def chain_state_def)
  have o: "ownership (layer ok_cb None) = ESP_TRANSPORT_OWNERSHIP_EXCLUSIVE"
    by (simp add: layer_def)
  from list_add_ex_no_mem_keeps_list_sets_ownership [OF h] h o show ?thesis
    by (intro conjI) simp_all
qed

text \<open>
  C10. When \<open>esp_transport_init\<close> returns a handle, the allocation succeeded at
  that address and the node there has ownership exclusive, no parent, no scheme
  label, port 0, no context data and no function pointer; nothing else of the state
  has changed.
\<close>

theorem transport_init_defaults:
  assumes "esp_transport_init calloc_result s = (Some a, s')"
  shows "calloc_result = Some a
     \<and> s' = s\<lparr>heap := (heap s)(a \<mapsto>
          \<lparr>port = 0, scheme = None, data = None, f_connect = None, f_read = None,
           f_write = None, f_close = None, f_poll_read = None, f_poll_write = None,
           f_destroy = None, f_connect_async = None, f_parent_transfer = None,
           f_get_socket = None, keep_alive_cfg = None, foundation = None,
           ownership = ESP_TRANSPORT_OWNERSHIP_EXCLUSIVE, parent = None, stq_next = None\<rparr>)\<rparr>"
  using assms
  by (auto simp: esp_transport_init_def zero_item_def split: option.splits)

theorem transport_init_defaults_witness:
  "esp_transport_init (Some 4) (chain_state ok_cb) =
     (Some 4, (chain_state ok_cb)\<lparr>heap := (heap (chain_state ok_cb))(4 \<mapsto>
          \<lparr>port = 0, scheme = None, data = None, f_connect = None, f_read = None,
           f_write = None, f_close = None, f_poll_read = None, f_poll_write = None,
           f_destroy = None, f_connect_async = None, f_parent_transfer = None,
           f_get_socket = None, keep_alive_cfg = None, foundation = None,
           ownership = ESP_TRANSPORT_OWNERSHIP_EXCLUSIVE, parent = None, stq_next = None\<rparr>)\<rparr>)"
proof -
  obtain r s' where e: "esp_transport_init (Some 4) (chain_state ok_cb) = (r, s')"
    by (cases "esp_transport_init (Some 4) (chain_state ok_cb)")
  then have r: "r = Some 4" by (simp add: esp_transport_init_def Let_def)
  from transport_init_defaults [OF e[unfolded r]] e r show ?thesis by simp
qed

section \<open>The resource tracker: cleanup\<close>

lemma cleanup_step_slots:
  "i < length (slots t) \<Longrightarrow> slots (cleanup_step i t) = (slots t)[i := cleared (slots t ! i)]"
  by (simp add: cleanup_step_def cleanup_slot_def cleared_def Let_def)

lemma cleanup_fold_slots:
  "n \<le> length (slots t) \<Longrightarrow>
   slots (fold cleanup_step (rev [0..<n]) t) = map cleared (take n (slots t)) @ drop n (slots t)"
proof (induction n arbitrary: t)
  case 0
  then show ?case by simp
next
  case (Suc n)
  then have n: "n < length (slots t)" by simp
  have "slots (fold cleanup_step (rev [0..<Suc n]) t) =
        slots (fold cleanup_step (rev [0..<n]) (cleanup_step n t))"
    by simp
  also have "\<dots> = map cleared (take n (slots (cleanup_step n t))) @ drop n (slots (cleanup_step n t))"
    using n by (intro Suc.IH) (simp add: cleanup_step_slots)
  also have "\<dots> = map cleared (take (Suc n) (slots t)) @ drop (Suc n) (slots t)"
    using n by (simp add: cleanup_step_slots take_Suc_conv_app_nth drop_update_swap
        Cons_nth_drop_Suc[symmetric] upd_conv_take_nth_drop)
  finally show ?case .
qed

lemma cleanup_slots: "slots (transport_resources_cleanup t) = map cleared (slots t)"
  by (simp add: transport_resources_cleanup_def cleanup_fold_slots)

lemma count_after_cleanup: "count_initialized (transport_resources_cleanup t) = 0"
  by (simp add: count_initialized_def cleanup_slots filter_empty_conv cleared_def)

lemma cleanup_fold_noop:
  "(\<And>i. i < n \<Longrightarrow> \<not> initialized (slots t ! i)) \<Longrightarrow> fold cleanup_step (rev [0..<n]) t = t"
  by (induction n) (simp_all add: cleanup_step_def)

lemma cleanup_noop: "count_initialized t = 0 \<Longrightarrow> transport_resources_cleanup t = t"
  unfolding transport_resources_cleanup_def count_initialized_def
  by (rule cleanup_fold_noop) (auto simp: filter_empty_conv)

lemma cleanup_idem:
  "transport_resources_cleanup (transport_resources_cleanup t) = transport_resources_cleanup t"
  by (rule cleanup_noop) (rule count_after_cleanup)

lemma reconnect_cycles_snoc:
  "reconnect_cycles (cfgs @ [cfg]) t =
     transport_resources_cleanup (snd (transport_resources_init cfg (reconnect_cycles cfgs t)))"
  by (simp add: reconnect_cycles_def)

lemma cleanup_fold_events:
  "n \<le> length (slots t) \<Longrightarrow>
   events (fold cleanup_step (rev [0..<n]) t) =
     events t @ map Cleanup_Called (filter (\<lambda>i. initialized (slots t ! i)) (rev [0..<n]))"
proof (induction n arbitrary: t)
  case 0
  then show ?case by simp
next
  case (Suc n)
  then have n: "n < length (slots t)" by simp
  have *: "filter (\<lambda>i. initialized (slots (cleanup_step n t) ! i)) (rev [0..<n]) =
           filter (\<lambda>i. initialized (slots t ! i)) (rev [0..<n])"
    using n by (intro filter_cong) (auto simp: cleanup_step_slots)
  have "events (fold cleanup_step (rev [0..<Suc n]) t) =
        events (fold cleanup_step (rev [0..<n]) (cleanup_step n t))"
    by simp
  also have "\<dots> = events (cleanup_step n t) @
      map Cleanup_Called (filter (\<lambda>i. initialized (slots (cleanup_step n t) ! i)) (rev [0..<n]))"
    using n by (intro Suc.IH) (simp add: cleanup_step_slots)
  also have "events (cleanup_step n t) =
      events t @ (if initialized (slots t ! n) then [Cleanup_Called n] else [])"
    by (simp add: cleanup_step_def cleanup_slot_def Let_def)
  finally show ?case
    unfolding * by simp
qed

lemma cleanup_events:
  "events (transport_resources_cleanup t) =
     events t @ map Cleanup_Called (filter (\<lambda>i. initialized (slots t ! i)) (rev [0..<length (slots t)]))"
  by (simp add: transport_resources_cleanup_def cleanup_fold_events)


text \<open>
  C6. For every tracker: a second cleanup right after a cleanup changes nothing; a
  cleanup of a tracker with no initialized slot changes nothing (no slot, no
  callback, no event); after a cleanup no slot is initialized, so the count is 0
  after every cleanup of any sequence init; cleanup; init; cleanup; ...; and the
  cleanup functions are invoked on exactly the slots that were initialized, in
  reverse slot order.
\<close>

theorem cleanup_idempotent:
  "transport_resources_cleanup (transport_resources_cleanup t) = transport_resources_cleanup t
   \<and> (count_initialized t = 0 \<longrightarrow> transport_resources_cleanup t = t)
   \<and> count_initialized (transport_resources_cleanup t) = 0
   \<and> (cfgs \<noteq> [] \<longrightarrow> count_initialized (reconnect_cycles cfgs t) = 0)
   \<and> events (transport_resources_cleanup t) =
       events t @ map Cleanup_Called (filter (\<lambda>i. initialized (slots t ! i)) (rev [0..<length (slots t)]))"
proof -
  have "count_initialized (reconnect_cycles cfgs t) = 0" if "cfgs \<noteq> []"
  proof -
    from that obtain cs c where "cfgs = cs @ [c]" by (cases cfgs rule: rev_cases) auto
    then show ?thesis by (simp add: reconnect_cycles_snoc count_after_cleanup)
  qed
  then show ?thesis
    by (simp add: cleanup_idem cleanup_noop count_after_cleanup cleanup_events)
qed

theorem cleanup_idempotent_witness:
  "count_initialized fresh_tracker = 0
   \<and> transport_resources_cleanup fresh_tracker = fresh_tracker
   \<and> [(), ()] \<noteq> []
   \<and> count_initialized (reconnect_cycles [(), ()] fresh_tracker) = 0
   \<and> transport_resources_cleanup (transport_resources_cleanup fresh_tracker) =
       transport_resources_cleanup fresh_tracker
   \<and> count_initialized (transport_resources_cleanup fresh_tracker) = 0"
proof -
  have h: "count_initialized fresh_tracker = 0"
    by (simp add: count_initialized_def fresh_tracker_def buffer_slot_def manual_slot_def)
  have n: "[(), ()] \<noteq> []" by simp
  from cleanup_idempotent [of fresh_tracker "[(), ()]"] h n show ?thesis by simp
qed

section \<open>The resource tracker: init and its rollback\<close>






declare init_loop.simps(2) [simp del]




lemma count_flags: "count_initialized t = length (filter id (map initialized (slots t)))"
  by (simp add: count_initialized_def filter_map comp_def)







end
